theory Spec2Isabelle
  imports Main "HOL-Library.Word" "HOL-Library.AList"
begin

section \<open>RESP request serializer (redis/request_writer.go)\<close>

text \<open>
  Byte buffers and Go strings are lists of bytes, written as \<open>char list\<close>.
  Go's \<open>byte\<close> arithmetic is done on \<open>8 word\<close> and read back as a character by
  \<open>byte\<close>; \<open>int64\<close> and \<open>uint64\<close> are both \<open>64 word\<close>, the signed reading
  is taken where the source compares signed values.
\<close>

type_synonym bytes = "char list"

definition byte :: "8 word \<Rightarrow> char" where
  "byte w = char_of (unat w)"

definition CRLF :: bytes where
  "CRLF = [CHR 0x0D, CHR 0x0A]"

text \<open>
  An argument is a Go \<open>interface{}\<close>: the dynamic type is the constructor. Floats carry
  their IEEE bit pattern. \<open>AOther\<close> stands for a value of any type outside the switch
  of \<open>AppendRequest\<close>, tagged with the name of its type.
\<close>

datatype arg =
    AString string
  | ABytes bytes
  | AInt "64 word"
  | AUint "64 word"
  | AInt64 "64 word"
  | AUint64 "64 word"
  | AInt32 "32 word"
  | AUint32 "32 word"
  | AInt8 "8 word"
  | AUint8 "8 word"
  | AInt16 "16 word"
  | AUint16 "16 word"
  | ABool bool
  | AFloat32 "32 word"
  | AFloat64 "64 word"
  | ANil
  | AOther string

record Request =
  Cmd :: string
  Args :: "arg list"

text \<open>
  \<open>strconv.FormatFloat\<close> belongs to Go's standard library, not to this repository:
  the two calls the serializer makes, \<open>FormatFloat(float64(v), 'f', -1, 32)\<close> and
  \<open>FormatFloat(v, 'f', -1, 64)\<close>, are parameters of the model.
\<close>

record strconv =
  FormatFloat32 :: "32 word \<Rightarrow> string"
  FormatFloat64 :: "64 word \<Rightarrow> string"

subsection \<open>Errors\<close>

datatype ErrorKind =
  ErrKindOpts | ErrKindRequest | ErrKindConnection | ErrKindContext | ErrKindResponse | ErrKindIO

datatype ErrorCode =
    ErrContextIsNil | ErrNoAddressProvided | ErrArgumentType | ErrBatchFormat
  | ErrRequestCancelled | ErrRequestIsNotActive | ErrNotConnected | ErrContextClosed
  | ErrDial | ErrConnSetup | ErrAuth | ErrPing | ErrIO

datatype ctxval =
  CtxConnection | CtxVal arg | CtxRequest Request | CtxRequests "Request list"

text \<open>
  Modelled from the spec: the package's error type (\<open>redis.Error\<close> with \<open>NewErr\<close>,
  \<open>NewErrWrap\<close>, \<open>With\<close>, \<open>Wrap\<close>) is not among the sources. The spec says:
  errors are tagged with a kind and a code and carry a context map (key to value),
  optionally wrapping an underlying cause. A Go \<open>error\<close> is either such an error, the
  context's own error (\<open>conn.ctx.Err()\<close>), or an error of the network layer.
\<close>

datatype error =
    RedisError ErrorKind ErrorCode "(string \<times> ctxval) list" "error option"
  | ContextErr
  | NetErr string

definition NewErr :: "ErrorKind \<Rightarrow> ErrorCode \<Rightarrow> error" where
  "NewErr k c = RedisError k c [] None"

definition NewErrWrap :: "ErrorKind \<Rightarrow> ErrorCode \<Rightarrow> error \<Rightarrow> error" where
  "NewErrWrap k c e = RedisError k c [] (Some e)"

fun With :: "string \<Rightarrow> ctxval \<Rightarrow> error \<Rightarrow> error" where
  "With name v (RedisError k c kv w) = RedisError k c (AList.update name v kv) w"
| "With name v e = e"

fun Wrap :: "error \<Rightarrow> error \<Rightarrow> error" where
  "Wrap cause (RedisError k c kv w) = RedisError k c kv (Some cause)"
| "Wrap cause e = e"

fun err_code :: "error \<Rightarrow> ErrorCode option" where
  "err_code (RedisError k c kv w) = Some c"
| "err_code e = None"

fun err_kind :: "error \<Rightarrow> ErrorKind option" where
  "err_kind (RedisError k c kv w) = Some k"
| "err_kind e = None"

fun err_cause :: "error \<Rightarrow> error option" where
  "err_cause (RedisError k c kv w) = w"
| "err_cause e = None"

subsection \<open>Integers\<close>

text \<open>
  \<open>appendUint\<close>: the loop fills \<open>digits\<close> from the right, \<open>p\<close> going down from 20, and
  the function appends \<open>digits[p:]\<close>. The accumulator of \<open>uint_digits\<close> is that slice
  \<open>digits[p:]\<close>; it never holds more than the 20 bytes of the array
  (lemma \<open>uint_digits_length\<close>), so the index \<open>p\<close> stays in range.
\<close>

function uint_digits :: "64 word \<Rightarrow> bytes \<Rightarrow> bytes" where
  "uint_digits u ds =
     (if 0 < u
      then (let n = u div 10 in uint_digits n (byte (ucast (u - n * 10) + 48) # ds))
      else ds)"
  by pat_completeness auto
termination
proof (relation "measure (\<lambda>(u, ds). unat u)")
  show "wf (measure (\<lambda>(u :: 64 word, ds :: bytes). unat u))" by simp
next
  fix u :: "64 word" and ds :: bytes and n :: "64 word"
  assume "0 < u" and "n = u div 10"
  then have "unat n < unat u"
    by (simp add: unat_div word_less_nat_alt)
  then show "((n, byte (ucast (u - n * 10) + 48) # ds), (u, ds)) \<in> measure (\<lambda>(u, ds). unat u)"
    by simp
qed

declare uint_digits.simps [simp del]

definition appendUint :: "bytes \<Rightarrow> 64 word \<Rightarrow> bytes" where
  "appendUint b u = b @ uint_digits u []"

definition appendInt :: "bytes \<Rightarrow> 64 word \<Rightarrow> bytes" where
  "appendInt b i =
     (if 0 \<le>s i \<and> i \<le>s 9 then b @ [byte (ucast i + 48)]
      else if 0 <s i then appendUint b i
      else appendUint (b @ ''-'') (- i))"

definition appendHead :: "bytes \<Rightarrow> char \<Rightarrow> 64 word \<Rightarrow> bytes" where
  "appendHead b t i = appendInt (b @ [t]) i @ CRLF"

text \<open>
  The bulk writers reserve one or two digits for the length, write the number, and patch
  the length in place at \<open>b[l-3]\<close> (and \<open>b[l-4]\<close>); \<open>li\<close> is a \<open>byte\<close>.
\<close>

definition patch_len :: "bytes \<Rightarrow> nat \<Rightarrow> bytes" where
  "patch_len b l =
     (let li = (of_nat (length b - l) :: 8 word) in
      if li < 10 then b[l - 3 := byte (li + 48)]
      else (let d = li div 10 in
            (b[l - 4 := byte (d + 48)])[l - 3 := byte (li - d * 10 + 48)]))"

definition appendBulkInt :: "bytes \<Rightarrow> 64 word \<Rightarrow> bytes" where
  "appendBulkInt b i =
     (let b1 = (if -99999999 \<le>s i \<and> i \<le>s 999999999
                then b @ [CHR ''$'', CHR ''0''] @ CRLF
                else b @ [CHR ''$'', CHR ''0'', CHR ''0''] @ CRLF);
          l = length b1;
          b2 = appendInt b1 i
      in patch_len b2 l)"

definition appendBulkUint :: "bytes \<Rightarrow> 64 word \<Rightarrow> bytes" where
  "appendBulkUint b i =
     (let b1 = (if i \<le> 999999999
                then b @ [CHR ''$'', CHR ''0''] @ CRLF
                else b @ [CHR ''$'', CHR ''1'', CHR ''0''] @ CRLF);
          l = length b1;
          b2 = appendUint b1 i
      in patch_len b2 l)"

subsection \<open>AppendRequest\<close>

text \<open>The scan for the space: every space found overwrites \<open>space\<close>; there is no break.\<close>

fun find_space :: "string \<Rightarrow> nat \<Rightarrow> int \<Rightarrow> int" where
  "find_space [] i space = space"
| "find_space (c # cs) i space =
     find_space cs (Suc i) (if c = CHR '' '' then int i else space)"

text \<open>
  One round of the switch over the argument's dynamic type, without the CRLF that the
  loop appends after it; \<open>None\<close> is the \<open>default\<close> branch.
\<close>

fun appendArg :: "strconv \<Rightarrow> bytes \<Rightarrow> arg \<Rightarrow> bytes option" where
  "appendArg sc buf (AString v) = Some (appendHead buf (CHR ''$'') (of_nat (length v)) @ v)"
| "appendArg sc buf (ABytes v) = Some (appendHead buf (CHR ''$'') (of_nat (length v)) @ v)"
| "appendArg sc buf (AInt v) = Some (appendBulkInt buf v)"
| "appendArg sc buf (AUint v) = Some (appendBulkUint buf v)"
| "appendArg sc buf (AInt64 v) = Some (appendBulkInt buf v)"
| "appendArg sc buf (AUint64 v) = Some (appendBulkUint buf v)"
| "appendArg sc buf (AInt32 v) = Some (appendBulkInt buf (scast v))"
| "appendArg sc buf (AUint32 v) = Some (appendBulkUint buf (ucast v))"
| "appendArg sc buf (AInt8 v) = Some (appendBulkInt buf (scast v))"
| "appendArg sc buf (AUint8 v) = Some (appendBulkUint buf (ucast v))"
| "appendArg sc buf (AInt16 v) = Some (appendBulkInt buf (scast v))"
| "appendArg sc buf (AUint16 v) = Some (appendBulkUint buf (ucast v))"
| "appendArg sc buf (ABool v) = Some (if v then buf @ ''$1'' @ CRLF @ ''1'' else buf @ ''$1'' @ CRLF @ ''0'')"
| "appendArg sc buf (AFloat32 v) =
     (let str = FormatFloat32 sc v in Some (appendHead buf (CHR ''$'') (of_nat (length str)) @ str))"
| "appendArg sc buf (AFloat64 v) =
     (let str = FormatFloat64 sc v in Some (appendHead buf (CHR ''$'') (of_nat (length str)) @ str))"
| "appendArg sc buf ANil = Some (buf @ ''$0'' @ CRLF)"
| "appendArg sc buf (AOther ty) = None"

fun appendArgs :: "strconv \<Rightarrow> Request \<Rightarrow> bytes \<Rightarrow> arg list \<Rightarrow> error + bytes" where
  "appendArgs sc req buf [] = Inr buf"
| "appendArgs sc req buf (val # vals) =
     (case appendArg sc buf val of
        None \<Rightarrow> Inl (With ''request'' (CtxRequest req)
                      (With ''val'' (CtxVal val) (NewErr ErrKindRequest ErrArgumentType)))
      | Some buf' \<Rightarrow> appendArgs sc req (buf' @ CRLF) vals)"

definition appendCmd :: "bytes \<Rightarrow> Request \<Rightarrow> bytes" where
  "appendCmd buf req =
     (let space = find_space (Cmd req) 0 (-1) in
      if space = -1 then
        (let buf = appendHead buf (CHR ''*'') (of_nat (length (Args req) + 1));
             buf = appendHead buf (CHR ''$'') (of_nat (length (Cmd req)));
             buf = buf @ Cmd req
         in buf @ CRLF)
      else
        (let buf = appendHead buf (CHR ''*'') (of_nat (length (Args req) + 2));
             buf = appendHead buf (CHR ''$'') (of_int space);
             buf = buf @ take (nat space) (Cmd req);
             buf = buf @ CRLF;
             buf = appendHead buf (CHR ''$'') (of_int (int (length (Cmd req)) - space - 1));
             buf = buf @ drop (nat space + 1) (Cmd req)
         in buf @ CRLF))"

definition AppendRequest :: "strconv \<Rightarrow> bytes \<Rightarrow> Request \<Rightarrow> error + bytes" where
  "AppendRequest sc buf req = appendArgs sc req (appendCmd buf req) (Args req)"

text \<open>\<open>ArgToString\<close>: the second component is the \<open>ok\<close> flag.\<close>

fun ArgToString :: "strconv \<Rightarrow> arg \<Rightarrow> string \<times> bool" where
  "ArgToString sc (AString v) = (v, True)"
| "ArgToString sc (ABytes v) = (v, True)"
| "ArgToString sc (AInt v) = (appendInt [] v, True)"
| "ArgToString sc (AUint v) = (appendUint [] v, True)"
| "ArgToString sc (AInt64 v) = (appendInt [] v, True)"
| "ArgToString sc (AUint64 v) = (appendUint [] v, True)"
| "ArgToString sc (AInt32 v) = (appendInt [] (scast v), True)"
| "ArgToString sc (AUint32 v) = (appendUint [] (ucast v), True)"
| "ArgToString sc (AInt8 v) = (appendInt [] (scast v), True)"
| "ArgToString sc (AUint8 v) = (appendUint [] (ucast v), True)"
| "ArgToString sc (AInt16 v) = (appendInt [] (scast v), True)"
| "ArgToString sc (AUint16 v) = (appendUint [] (ucast v), True)"
| "ArgToString sc (ABool v) = (if v then ''1'' else ''0'', True)"
| "ArgToString sc (AFloat32 v) = (FormatFloat32 sc v, True)"
| "ArgToString sc (AFloat64 v) = (FormatFloat64 sc v, True)"
| "ArgToString sc ANil = ('''', True)"
| "ArgToString sc (AOther ty) = ('''', False)"

subsection \<open>The textual forms the specification names\<close>

text \<open>
  These follow the words of the specification, not the code: the decimal representation of
  a number, a bulk string \<open>$<len>\\r\\n<bytes>\\r\\n\<close>, and the canonical text of an
  argument (strings and byte strings unchanged, numbers as decimal, booleans as 1 or 0,
  floats as \<open>strconv\<close> prints them, nil as the empty string).
\<close>

definition digit :: "nat \<Rightarrow> char" where
  "digit n = char_of (48 + n)"

fun decimal :: "nat \<Rightarrow> string" where
  "decimal n = (if n < 10 then [digit n] else decimal (n div 10) @ [digit (n mod 10)])"

declare decimal.simps [simp del]

definition decimal_int :: "int \<Rightarrow> string" where
  "decimal_int k = (if k < 0 then ''-'' @ decimal (nat (- k)) else decimal (nat k))"

definition bulk_head :: "bytes \<Rightarrow> bytes" where
  "bulk_head s = CHR ''$'' # decimal (length s) @ CRLF"

definition bulk :: "bytes \<Rightarrow> bytes" where
  "bulk s = bulk_head s @ s @ CRLF"

definition array_head :: "nat \<Rightarrow> bytes" where
  "array_head n = CHR ''*'' # decimal n @ CRLF"

fun canonical :: "strconv \<Rightarrow> arg \<Rightarrow> string option" where
  "canonical sc (AString v) = Some v"
| "canonical sc (ABytes v) = Some v"
| "canonical sc (AInt v) = Some (decimal_int (sint v))"
| "canonical sc (AUint v) = Some (decimal (unat v))"
| "canonical sc (AInt64 v) = Some (decimal_int (sint v))"
| "canonical sc (AUint64 v) = Some (decimal (unat v))"
| "canonical sc (AInt32 v) = Some (decimal_int (sint v))"
| "canonical sc (AUint32 v) = Some (decimal (unat v))"
| "canonical sc (AInt8 v) = Some (decimal_int (sint v))"
| "canonical sc (AUint8 v) = Some (decimal (unat v))"
| "canonical sc (AInt16 v) = Some (decimal_int (sint v))"
| "canonical sc (AUint16 v) = Some (decimal (unat v))"
| "canonical sc (ABool v) = Some (if v then ''1'' else ''0'')"
| "canonical sc (AFloat32 v) = Some (FormatFloat32 sc v)"
| "canonical sc (AFloat64 v) = Some (FormatFloat64 sc v)"
| "canonical sc ANil = Some []"
| "canonical sc (AOther ty) = None"

fun unsigned_zero :: "arg \<Rightarrow> bool" where
  "unsigned_zero (AUint v) = (v = 0)"
| "unsigned_zero (AUint64 v) = (v = 0)"
| "unsigned_zero (AUint32 v) = (v = 0)"
| "unsigned_zero (AUint16 v) = (v = 0)"
| "unsigned_zero (AUint8 v) = (v = 0)"
| "unsigned_zero a = False"

text \<open>A \<open>strconv\<close> for closed examples that have no float among their arguments.\<close>

definition strconv0 :: strconv where
  "strconv0 = \<lparr>FormatFloat32 = (\<lambda>v. []), FormatFloat64 = (\<lambda>v. [])\<rparr>"

text \<open>
  Splitting a command name at its first and at its last space, written with list
  functions (not the code's scan): the text before the space and the text after it.
\<close>

definition before_first_space :: "string \<Rightarrow> string" where
  "before_first_space cmd = takeWhile (\<lambda>c. c \<noteq> CHR '' '') cmd"

definition after_first_space :: "string \<Rightarrow> string" where
  "after_first_space cmd = tl (dropWhile (\<lambda>c. c \<noteq> CHR '' '') cmd)"

definition before_last_space :: "string \<Rightarrow> string" where
  "before_last_space cmd = rev (after_first_space (rev cmd))"

definition after_last_space :: "string \<Rightarrow> string" where
  "after_last_space cmd = rev (before_first_space (rev cmd))"

section \<open>Address parsing of dial\<close>

text \<open>
  \<open>dial\<close> reads \<open>address[0]\<close>, \<open>address[0:7]\<close> and \<open>address[0:6]\<close>. In Go an index
  or a slice bound beyond the length of the string is a run-time panic; the model
  returns the panic as a value. The two versions of \<open>dial\<close> (the one that follows the
  serializer in request_writer.go and redisconn/conn.go) parse the address the same way.
  The result is the network and the address handed to the dialer.
\<close>

datatype panic = IndexOutOfRange | SliceBoundsOutOfRange

definition str_index :: "string \<Rightarrow> nat \<Rightarrow> panic + char" where
  "str_index s i = (if i < length s then Inr (s ! i) else Inl IndexOutOfRange)"

definition str_slice :: "string \<Rightarrow> nat \<Rightarrow> nat \<Rightarrow> panic + string" where
  "str_slice s lo hi =
     (if lo \<le> hi \<and> hi \<le> length s then Inr (take (hi - lo) (drop lo s))
      else Inl SliceBoundsOutOfRange)"

definition str_slice_from :: "string \<Rightarrow> nat \<Rightarrow> panic + string" where
  "str_slice_from s lo = (if lo \<le> length s then Inr (drop lo s) else Inl SliceBoundsOutOfRange)"

definition dial_address :: "string \<Rightarrow> panic + (string \<times> string)" where
  "dial_address address =
     (case str_index address 0 of
        Inl p \<Rightarrow> Inl p
      | Inr c0 \<Rightarrow>
          if c0 = CHR ''.'' \<or> c0 = CHR ''/'' then Inr (''unix'', address)
          else
            (case str_slice address 0 7 of
               Inl p \<Rightarrow> Inl p
             | Inr s7 \<Rightarrow>
                 if s7 = ''unix://'' then
                   (case str_slice_from address 7 of
                      Inl p \<Rightarrow> Inl p
                    | Inr a \<Rightarrow> Inr (''unix'', a))
                 else
                   (case str_slice address 0 6 of
                      Inl p \<Rightarrow> Inl p
                    | Inr s6 \<Rightarrow>
                        if s6 = ''tcp://'' then
                          (case str_slice_from address 6 of
                             Inl p \<Rightarrow> Inl p
                           | Inr a \<Rightarrow> Inr (''tcp'', a))
                        else Inr (''tcp'', address))))"

section \<open>Fault handoff: setErr\<close>

text \<open>
  The per-socket session \<open>oneconn\<close>: \<open>control\<close> is the one-shot close signal (closed or
  not), \<open>erronce\<close> is the \<open>sync.Once\<close> (already done or not). \<open>sync.Once.Do\<close> runs its
  function for the first caller only and makes concurrent callers wait for it, so
  concurrent calls of \<open>setErr\<close> behave as the calls made one after the other in some
  order. A call returns the session and the goroutines it started with \<open>go\<close>.
\<close>

record oneconn =
  control_closed :: bool
  err :: "error option"
  erronce_done :: bool

datatype task = Reconnect error

definition as_redis_error :: "error \<Rightarrow> error" where
  "as_redis_error neterr =
     (case neterr of
        RedisError k c kv w \<Rightarrow> neterr
      | _ \<Rightarrow> NewErrWrap ErrKindIO ErrIO neterr)"

text \<open>request_writer.go (second part), \<open>setErr\<close>: the \<open>go conn.reconnect\<close> is inside \<open>Do\<close>.\<close>

definition setErr :: "error \<Rightarrow> oneconn \<Rightarrow> oneconn \<times> task list" where
  "setErr neterr one =
     (if erronce_done one then (one, [])
      else
        (let rerr = as_redis_error neterr;
             e = With ''connection'' CtxConnection rerr;
             one = one\<lparr>erronce_done := True, control_closed := True, err := Some e\<rparr>
         in (one, [Reconnect e])))"

text \<open>redisconn/conn.go, \<open>setErr\<close>: the \<open>go conn.reconnect\<close> follows \<open>Do\<close>.\<close>

definition setErr_conn :: "error \<Rightarrow> oneconn \<Rightarrow> oneconn \<times> task list" where
  "setErr_conn neterr one =
     (let one = (if erronce_done one then one
                 else one\<lparr>erronce_done := True, control_closed := True,
                          err := Some (With ''connection'' CtxConnection (as_redis_error neterr))\<rparr>)
      in (one, [Reconnect neterr]))"

text \<open>A run of calls on one session, collecting the reconnect tasks started.\<close>

fun setErr_calls :: "(error \<Rightarrow> oneconn \<Rightarrow> oneconn \<times> task list) \<Rightarrow> error list \<Rightarrow> oneconn \<Rightarrow> oneconn \<times> task list" where
  "setErr_calls f [] one = (one, [])"
| "setErr_calls f (e # es) one =
     (let (one1, ts1) = f e one; (one2, ts2) = setErr_calls f es one1 in (one2, ts1 @ ts2))"

definition new_oneconn :: oneconn where
  "new_oneconn = \<lparr>control_closed = False, err = None, erronce_done = False\<rparr>"

unbundle bit_operations_syntax

section \<open>Futures and the connection\<close>

text \<open>
  What a future is resolved with: a response value (simple string, bulk string, integer,
  array of values, nil) or an error.
\<close>

datatype reply = RString string | RBulk bytes | RInt "64 word" | RArray "reply list" | RNil

datatype result = Reply reply | Failure error

text \<open>
  The futures the connection meets: the global sentinel \<open>dumb\<close>, a producer's callback
  (named by a number, with the answer its \<open>Cancelled\<close> method gives), and the wrapper
  \<open>transactionFuture\<close> of \<open>SendTransaction\<close>. A call of \<open>Resolve\<close> on a producer's
  callback is recorded, in order, as (callback, result, index); \<open>dumb\<close> discards its result.
\<close>

datatype Future = dumb | Callback nat bool | transactionFuture Future int "64 word"

type_synonym resolution = "nat \<times> result \<times> 64 word"

fun Cancelled :: "Future \<Rightarrow> bool" where
  "Cancelled dumb = False"
| "Cancelled (Callback c cancelled) = cancelled"
| "Cancelled (transactionFuture f l off) = Cancelled f"

fun Resolve :: "Future \<Rightarrow> result \<Rightarrow> 64 word \<Rightarrow> resolution list \<Rightarrow> resolution list" where
  "Resolve dumb res n log = log"
| "Resolve (Callback c cancelled) res n log = log @ [(c, res, n)]"
| "Resolve (transactionFuture f l off) res n log =
     (if n = of_int l then Resolve f res off log else log)"

text \<open>The enqueued entry \<open>future{cb, n, start, req}\<close>.\<close>

record future =
  Future :: Future
  N :: "64 word"
  start :: int
  req :: Request

datatype conn_state = connDisconnected | connConnecting | connConnected | connClosed

text \<open>
  The fields of \<open>Connection\<close> that the submission path reads and writes. \<open>dirtyShard\<close>
  is the content of the buffered channel, oldest first; its capacity is
  \<open>2 * Concurrency\<close> (set in \<open>Connect\<close>). \<open>resolved\<close> is not a field of the struct: it is
  the record of the \<open>Resolve\<close> calls made so far on the producers' callbacks.
\<close>

record Connection =
  state :: conn_state
  shardid :: "32 word"
  shard :: "future list list"
  dirtyShard :: "32 word list"
  Concurrency :: "32 word"
  resolved :: "resolution list"

definition DoAsking :: int where "DoAsking = 1"
definition DoTransaction :: int where "DoTransaction = 2"

definition conn_err :: "ErrorKind \<Rightarrow> ErrorCode \<Rightarrow> error" where
  "conn_err kind code = With ''connection'' CtxConnection (NewErr kind code)"

text \<open>
  Modelled from the spec: \<open>redis.CheckArgs\<close> is not among the sources. The spec says any
  argument outside the supported types makes the request malformed, with an error carrying
  the argument and the request; \<open>doSend\<close> calls it to be sure the request can be packed.
  It is the check of \<open>AppendRequest\<close> without the writing.
\<close>

fun CheckArgs_loop :: "Request \<Rightarrow> arg list \<Rightarrow> error option" where
  "CheckArgs_loop r [] = None"
| "CheckArgs_loop r (AOther ty # vals) =
     Some (With ''request'' (CtxRequest r)
            (With ''val'' (CtxVal (AOther ty)) (NewErr ErrKindRequest ErrArgumentType)))"
| "CheckArgs_loop r (val # vals) = CheckArgs_loop r vals"

definition CheckArgs :: "Request \<Rightarrow> error option" where
  "CheckArgs r = CheckArgs_loop r (Args r)"

text \<open>
  \<open>getShard\<close>: \<open>atomic.AddUint32(&conn.shardid, 1) % conn.opts.Concurrency\<close>.
  \<open>Connect\<close> makes \<open>Concurrency\<close> positive and allocates that many shards.
\<close>

definition getShard :: "Connection \<Rightarrow> nat \<times> Connection" where
  "getShard conn =
     (let sid = shardid conn + 1 in (unat (sid mod Concurrency conn), conn\<lparr>shardid := sid\<rparr>))"

definition conn_ok :: "Connection \<Rightarrow> bool" where
  "conn_ok conn \<longleftrightarrow> Concurrency conn \<noteq> 0 \<and> length (shard conn) = unat (Concurrency conn)"

text \<open>
  A send on the buffered channel \<open>dirtyShard\<close>: \<open>None\<close> when the buffer is full, where
  the sender blocks.
\<close>

definition send_dirtyShard :: "nat \<Rightarrow> Connection \<Rightarrow> Connection option" where
  "send_dirtyShard shardn conn =
     (if length (dirtyShard conn) < 2 * unat (Concurrency conn)
      then Some (conn\<lparr>dirtyShard := dirtyShard conn @ [of_nat shardn]\<rparr>)
      else None)"

text \<open>
  The tail shared by \<open>doSend\<close> and \<open>doSendBatch\<close>: notify the writer if the shard was
  empty, then store the new list. \<open>None\<close>: the submission blocks on the channel.
\<close>

definition notify_and_store :: "nat \<Rightarrow> future list \<Rightarrow> Connection \<Rightarrow> Connection option" where
  "notify_and_store shardn futures conn =
     (if length (shard conn ! shardn) = 0
      then (case send_dirtyShard shardn conn of
              None \<Rightarrow> None
            | Some conn \<Rightarrow> Some (conn\<lparr>shard := (shard conn)[shardn := futures]\<rparr>))
      else Some (conn\<lparr>shard := (shard conn)[shardn := futures]\<rparr>))"

subsection \<open>The connection that follows the serializer in request_writer.go\<close>

definition doSend ::
  "int \<Rightarrow> Request \<Rightarrow> Future \<Rightarrow> 64 word \<Rightarrow> bool \<Rightarrow> Connection \<Rightarrow> (error option \<times> Connection) option" where
  "doSend now r cb n asking conn =
     (if Cancelled cb then Some (Some (conn_err ErrKindRequest ErrRequestCancelled), conn)
      else
        (case CheckArgs r of
           Some e \<Rightarrow> Some (Some e, conn)
         | None \<Rightarrow>
             (let (shardn, conn) = getShard conn in
              case state conn of
                connClosed \<Rightarrow> Some (Some (NewErrWrap ErrKindContext ErrContextClosed ContextErr), conn)
              | connDisconnected \<Rightarrow> Some (Some (NewErr ErrKindConnection ErrNotConnected), conn)
              | _ \<Rightarrow>
                  (let futures = shard conn ! shardn;
                       futures = (if asking
                                  then futures @ [\<lparr>Future = dumb, N = 0, start = 0,
                                                   req = \<lparr>Cmd = ''ASKING'', Args = []\<rparr>\<rparr>]
                                  else futures);
                       futures = futures @ [\<lparr>Future = cb, N = n, start = now, req = r\<rparr>]
                   in map_option (Pair None) (notify_and_store shardn futures conn)))))"

text \<open>
  \<open>SendAsk\<close> replaces a nil future by \<open>dumb\<close>; in the model a caller without a future
  passes \<open>dumb\<close>.
\<close>

definition SendAsk :: "int \<Rightarrow> Request \<Rightarrow> Future \<Rightarrow> 64 word \<Rightarrow> bool \<Rightarrow> Connection \<Rightarrow> Connection option" where
  "SendAsk now r cb n asking conn =
     (case doSend now r cb n asking conn of
        None \<Rightarrow> None
      | Some (None, conn) \<Rightarrow> Some conn
      | Some (Some e, conn) \<Rightarrow>
          Some (conn\<lparr>resolved := Resolve cb (Failure (With ''connection'' CtxConnection e)) n (resolved conn)\<rparr>))"

definition Send :: "int \<Rightarrow> Request \<Rightarrow> Future \<Rightarrow> 64 word \<Rightarrow> Connection \<Rightarrow> Connection option" where
  "Send now r cb n conn = SendAsk now r cb n False conn"

text \<open>The entries \<open>doSendBatch\<close> builds for the requests, indices \<open>start + i\<close>.\<close>

fun batch_entries :: "Future \<Rightarrow> 64 word \<Rightarrow> int \<Rightarrow> nat \<Rightarrow> Request list \<Rightarrow> future list" where
  "batch_entries cb st now i [] = []"
| "batch_entries cb st now i (r # rs) =
     \<lparr>Future = cb, N = st + of_nat i, start = now, req = r\<rparr> # batch_entries cb st now (Suc i) rs"

definition doSendBatch ::
  "int \<Rightarrow> Request list \<Rightarrow> Future \<Rightarrow> 64 word \<Rightarrow> int \<Rightarrow> Connection \<Rightarrow> (error option \<times> Connection) option" where
  "doSendBatch now requests cb st flags conn =
     (if length requests = 0 then
        Some (None, if (flags AND DoTransaction) \<noteq> 0
                    then conn\<lparr>resolved := Resolve cb (Reply (RArray [])) st (resolved conn)\<rparr>
                    else conn)
      else if Cancelled cb then Some (Some (conn_err ErrKindRequest ErrRequestCancelled), conn)
      else
        (let (shardn, conn) = getShard conn in
         case state conn of
           connClosed \<Rightarrow> Some (Some (Wrap ContextErr (conn_err ErrKindContext ErrContextClosed)), conn)
         | connDisconnected \<Rightarrow> Some (Some (conn_err ErrKindConnection ErrNotConnected), conn)
         | _ \<Rightarrow>
             (let futures = shard conn ! shardn;
                  futures = (if (flags AND DoAsking) \<noteq> 0
                             then futures @ [\<lparr>Future = dumb, N = 0, start = 0,
                                              req = \<lparr>Cmd = ''ASKING'', Args = []\<rparr>\<rparr>]
                             else futures);
                  futures = (if (flags AND DoTransaction) \<noteq> 0
                             then futures @ [\<lparr>Future = dumb, N = 0, start = 0,
                                              req = \<lparr>Cmd = ''MULTI'', Args = []\<rparr>\<rparr>]
                             else futures);
                  futures = futures @ batch_entries cb st now 0 requests;
                  futures = (if (flags AND DoTransaction) \<noteq> 0
                             then futures @ [\<lparr>Future = cb, N = st + of_nat (length requests),
                                              start = now, req = \<lparr>Cmd = ''EXEC'', Args = []\<rparr>\<rparr>]
                             else futures)
              in map_option (Pair None) (notify_and_store shardn futures conn))))"

text \<open>The first request of the batch that \<open>CheckArgs\<close> rejects, with its position.\<close>

fun first_malformed :: "nat \<Rightarrow> Request list \<Rightarrow> (nat \<times> error) option" where
  "first_malformed i [] = None"
| "first_malformed i (r # rs) =
     (case CheckArgs r of Some e \<Rightarrow> Some (i, e) | None \<Rightarrow> first_malformed (Suc i) rs)"

text \<open>
  The loop that resolves every index of a failed batch: \<open>err\<close> at \<open>errpos\<close>,
  \<open>commonerr\<close> elsewhere.
\<close>

fun resolve_batch ::
  "Future \<Rightarrow> error \<Rightarrow> (nat \<times> error) option \<Rightarrow> 64 word \<Rightarrow> nat list \<Rightarrow> resolution list \<Rightarrow> resolution list" where
  "resolve_batch cb commonerr bad st [] log = log"
| "resolve_batch cb commonerr bad st (i # is) log =
     resolve_batch cb commonerr bad st is
       (case bad of
          Some (errpos, e) \<Rightarrow>
            if i \<noteq> errpos then Resolve cb (Failure commonerr) (st + of_nat i) log
            else Resolve cb (Failure e) (st + of_nat i) log
        | None \<Rightarrow> Resolve cb (Failure commonerr) (st + of_nat i) log)"

definition SendBatchFlags ::
  "int \<Rightarrow> Request list \<Rightarrow> Future \<Rightarrow> 64 word \<Rightarrow> int \<Rightarrow> Connection \<Rightarrow> Connection option" where
  "SendBatchFlags now requests cb st flags conn =
     (let bad = (case first_malformed 0 requests of
                   None \<Rightarrow> None
                 | Some (i, e) \<Rightarrow>
                     Some (i, With ''request'' (CtxRequest (requests ! i))
                                (With ''connection'' CtxConnection e)));
          sent = (case bad of
                    Some (i, e) \<Rightarrow>
                      Some (Some (With ''request'' (CtxRequest (requests ! i))
                                   (With ''requests'' (CtxRequests requests)
                                     (Wrap e (conn_err ErrKindRequest ErrBatchFormat)))), conn)
                  | None \<Rightarrow> doSendBatch now requests cb st flags conn)
      in case sent of
           None \<Rightarrow> None
         | Some (None, conn) \<Rightarrow> Some conn
         | Some (Some commonerr, conn) \<Rightarrow>
             (let log = resolve_batch cb commonerr bad st [0 ..< length requests] (resolved conn);
                  log = (if (flags AND DoTransaction) \<noteq> 0
                         then Resolve cb (Failure commonerr) (st + of_nat (length requests)) log
                         else log)
              in Some (conn\<lparr>resolved := log\<rparr>)))"

definition SendBatch :: "int \<Rightarrow> Request list \<Rightarrow> Future \<Rightarrow> 64 word \<Rightarrow> Connection \<Rightarrow> Connection option" where
  "SendBatch now requests cb st conn = SendBatchFlags now requests cb st 0 conn"

definition SendTransaction :: "int \<Rightarrow> Request list \<Rightarrow> Future \<Rightarrow> 64 word \<Rightarrow> Connection \<Rightarrow> Connection option" where
  "SendTransaction now reqs cb off conn =
     (if Cancelled cb
      then Some (conn\<lparr>resolved := Resolve cb (Failure (conn_err ErrKindRequest ErrRequestCancelled)) off (resolved conn)\<rparr>)
      else SendBatchFlags now reqs (transactionFuture cb (int (length reqs)) off) 0 DoTransaction conn)"

subsection \<open>redisconn/conn.go\<close>

text \<open>
  In this file the producers serialize under the shard lock: a shard holds the bytes
  \<open>buf\<close> and the futures, an entry is \<open>future{cb, n}\<close>, and the future interface has
  \<open>Active\<close> where the other file has \<open>Cancelled\<close>: a future is active when it is not
  cancelled.
\<close>

definition Active :: "Future \<Rightarrow> bool" where
  "Active f \<longleftrightarrow> \<not> Cancelled f"

text \<open>
  Modelled from the spec: the byte strings \<open>askingReq\<close>, \<open>multiReq\<close> and \<open>execReq\<close>,
  \<open>resp.AppendRequest\<close>, \<open>redis.WrapFuture\<close> and \<open>Go\<close> are not among the sources.
  The three byte strings are the encodings of the marker commands ASKING, MULTI and
  EXEC; \<open>AppendRequest\<close> of request_writer.go is taken as the serializer;
  \<open>WrapFuture(cb, f)\<close> with the closure of \<open>SendTransaction\<close> is the wrapper
  \<open>transactionFuture\<close> (it keeps the cancellation state of \<open>cb\<close> and resolves through
  the closure); \<open>Go(f)\<close> runs \<open>f\<close>: what the claims read of it is the sequence of
  \<open>Resolve\<close> calls that \<open>f\<close> makes.
\<close>

definition askingReq :: bytes where
  "askingReq = ''*1'' @ CRLF @ ''$6'' @ CRLF @ ''ASKING'' @ CRLF"

definition multiReq :: bytes where
  "multiReq = ''*1'' @ CRLF @ ''$5'' @ CRLF @ ''MULTI'' @ CRLF"

definition execReq :: bytes where
  "execReq = ''*1'' @ CRLF @ ''$4'' @ CRLF @ ''EXEC'' @ CRLF"

type_synonym future_c = "Future \<times> 64 word"

record connShard_c =
  buf_c :: bytes
  futures_c :: "future_c list"

record Connection_c =
  state_c :: conn_state
  shardid_c :: "32 word"
  shard_c :: "connShard_c list"
  dirtyShard_c :: "32 word list"
  Concurrency_c :: "32 word"
  resolved_c :: "resolution list"

definition getShard_conn :: "Connection_c \<Rightarrow> nat \<times> Connection_c" where
  "getShard_conn conn =
     (let sid = shardid_c conn + 1
      in (unat (sid mod Concurrency_c conn), conn\<lparr>shardid_c := sid\<rparr>))"

definition conn_ok_c :: "Connection_c \<Rightarrow> bool" where
  "conn_ok_c conn \<longleftrightarrow>
     Concurrency_c conn \<noteq> 0 \<and> length (shard_c conn) = unat (Concurrency_c conn)"

definition send_dirtyShard_conn :: "nat \<Rightarrow> Connection_c \<Rightarrow> Connection_c option" where
  "send_dirtyShard_conn shardn conn =
     (if length (dirtyShard_c conn) < 2 * unat (Concurrency_c conn)
      then Some (conn\<lparr>dirtyShard_c := dirtyShard_c conn @ [of_nat shardn]\<rparr>)
      else None)"

text \<open>Here the notification is keyed on the shard's bytes: \<open>len(shard.buf) == 0\<close>.\<close>

definition notify_and_store_conn ::
  "nat \<Rightarrow> bytes \<Rightarrow> future_c list \<Rightarrow> Connection_c \<Rightarrow> Connection_c option" where
  "notify_and_store_conn shardn buf futures conn =
     (let store = (\<lambda>conn. conn\<lparr>shard_c :=
                     (shard_c conn)[shardn := \<lparr>buf_c = buf, futures_c = futures\<rparr>]\<rparr>)
      in if length (buf_c (shard_c conn ! shardn)) = 0
         then map_option store (send_dirtyShard_conn shardn conn)
         else Some (store conn))"

definition doSend_conn ::
  "strconv \<Rightarrow> Request \<Rightarrow> Future \<Rightarrow> 64 word \<Rightarrow> bool \<Rightarrow> Connection_c \<Rightarrow> (error option \<times> Connection_c) option" where
  "doSend_conn sc r cb n asking conn =
     (if \<not> Active cb then Some (Some (conn_err ErrKindRequest ErrRequestIsNotActive), conn)
      else
        (let (shardn, conn) = getShard_conn conn in
         case state_c conn of
           connClosed \<Rightarrow> Some (Some (NewErrWrap ErrKindContext ErrContextClosed ContextErr), conn)
         | connDisconnected \<Rightarrow> Some (Some (NewErr ErrKindConnection ErrNotConnected), conn)
         | _ \<Rightarrow>
             (let buf = buf_c (shard_c conn ! shardn);
                  futures = futures_c (shard_c conn ! shardn);
                  buf = (if asking then buf @ askingReq else buf);
                  futures = (if asking then futures @ [(dumb, 0)] else futures)
              in case AppendRequest sc buf r of
                   Inl e \<Rightarrow> Some (Some e, conn)
                 | Inr buf \<Rightarrow>
                     map_option (Pair None)
                       (notify_and_store_conn shardn buf (futures @ [(cb, n)]) conn))))"

definition SendAsk_conn ::
  "strconv \<Rightarrow> Request \<Rightarrow> Future \<Rightarrow> 64 word \<Rightarrow> bool \<Rightarrow> Connection_c \<Rightarrow> Connection_c option" where
  "SendAsk_conn sc r cb n asking conn =
     (case doSend_conn sc r cb n asking conn of
        None \<Rightarrow> None
      | Some (None, conn) \<Rightarrow> Some conn
      | Some (Some e, conn) \<Rightarrow>
          Some (conn\<lparr>resolved_c :=
                  Resolve cb (Failure (With ''connection'' CtxConnection e)) n (resolved_c conn)\<rparr>))"

definition Send_conn :: "strconv \<Rightarrow> Request \<Rightarrow> Future \<Rightarrow> 64 word \<Rightarrow> Connection_c \<Rightarrow> Connection_c option" where
  "Send_conn sc r cb n conn = SendAsk_conn sc r cb n False conn"

text \<open>
  The loop of \<open>SendBatchFlags\<close> over the requests: it serializes and appends entries
  until a request fails; \<open>Inl (i, e)\<close> is the failure of request \<open>i\<close>.
\<close>

fun batch_loop_conn ::
  "strconv \<Rightarrow> Future \<Rightarrow> 64 word \<Rightarrow> nat \<Rightarrow> Request list \<Rightarrow> bytes \<Rightarrow> future_c list
     \<Rightarrow> (nat \<times> error) + (bytes \<times> future_c list)" where
  "batch_loop_conn sc cb st i [] buf futures = Inr (buf, futures)"
| "batch_loop_conn sc cb st i (r # rs) buf futures =
     (case AppendRequest sc buf r of
        Inl e \<Rightarrow> Inl (i, e)
      | Inr buf \<Rightarrow> batch_loop_conn sc cb st (Suc i) rs buf (futures @ [(cb, st + of_nat i)]))"

text \<open>The closure run on a malformed request: \<open>for j := 0; j < n; j++\<close>.\<close>

fun resolve_malformed_conn ::
  "Future \<Rightarrow> error \<Rightarrow> error \<Rightarrow> nat \<Rightarrow> 64 word \<Rightarrow> nat list \<Rightarrow> resolution list \<Rightarrow> resolution list" where
  "resolve_malformed_conn cb e common_err i st [] log = log"
| "resolve_malformed_conn cb e common_err i st (j # js) log =
     resolve_malformed_conn cb e common_err i st js
       (if j = i then Resolve cb (Failure e) (st + of_nat i) log
        else Resolve cb (Failure common_err) (st + of_nat j) log)"

fun resolve_all_conn :: "Future \<Rightarrow> error \<Rightarrow> 64 word \<Rightarrow> nat list \<Rightarrow> resolution list \<Rightarrow> resolution list" where
  "resolve_all_conn cb e st [] log = log"
| "resolve_all_conn cb e st (i # is) log =
     resolve_all_conn cb e st is (Resolve cb (Failure e) (st + of_nat i) log)"

text \<open>
  In the \<open>switch\<close> on the state both error cases end in \<open>return\<close>: the block after the
  switch that would resolve the futures with \<open>err\<close> is never reached with an error.
\<close>

definition SendBatchFlags_conn ::
  "strconv \<Rightarrow> Request list \<Rightarrow> Future \<Rightarrow> 64 word \<Rightarrow> int \<Rightarrow> Connection_c \<Rightarrow> Connection_c option" where
  "SendBatchFlags_conn sc requests cb st flags conn =
     (if length requests = 0 then Some conn
      else
        (let n = length requests in
         if \<not> Active cb
         then Some (conn\<lparr>resolved_c :=
                      resolve_all_conn cb (conn_err ErrKindRequest ErrRequestIsNotActive) st
                        [0 ..< n] (resolved_c conn)\<rparr>)
         else
           (let (shardn, conn) = getShard_conn conn in
            case state_c conn of
              connClosed \<Rightarrow> Some conn
            | connDisconnected \<Rightarrow> Some conn
            | _ \<Rightarrow>
                (let buf = buf_c (shard_c conn ! shardn);
                     futures = futures_c (shard_c conn ! shardn);
                     buf = (if (flags AND DoAsking) \<noteq> 0 then buf @ askingReq else buf);
                     futures = (if (flags AND DoAsking) \<noteq> 0 then futures @ [(dumb, 0)] else futures);
                     buf = (if (flags AND DoTransaction) \<noteq> 0 then buf @ multiReq else buf);
                     futures = (if (flags AND DoTransaction) \<noteq> 0 then futures @ [(dumb, 0)] else futures)
                 in case batch_loop_conn sc cb st 0 requests buf futures of
                      Inl (i, e) \<Rightarrow>
                        (let e = With ''request'' (CtxRequest (requests ! i))
                                   (With ''connection'' CtxConnection e);
                             common_err = With ''request'' (CtxRequest (requests ! i))
                                            (With ''requests'' (CtxRequests requests)
                                              (Wrap e (conn_err ErrKindRequest ErrBatchFormat)))
                         in Some (conn\<lparr>resolved_c :=
                                    resolve_malformed_conn cb e common_err i st [0 ..< n]
                                      (resolved_c conn)\<rparr>))
                    | Inr (buf, futures) \<Rightarrow>
                        (let buf = (if (flags AND DoTransaction) \<noteq> 0 then buf @ execReq else buf);
                             futures = (if (flags AND DoTransaction) \<noteq> 0
                                        then futures @ [(cb, st + of_nat (length requests))]
                                        else futures)
                         in notify_and_store_conn shardn buf futures conn)))))"

definition SendBatch_conn :: "strconv \<Rightarrow> Request list \<Rightarrow> Future \<Rightarrow> 64 word \<Rightarrow> Connection_c \<Rightarrow> Connection_c option" where
  "SendBatch_conn sc requests cb st conn = SendBatchFlags_conn sc requests cb st 0 conn"

definition SendTransaction_conn ::
  "strconv \<Rightarrow> Request list \<Rightarrow> Future \<Rightarrow> 64 word \<Rightarrow> Connection_c \<Rightarrow> Connection_c option" where
  "SendTransaction_conn sc reqs cb off conn =
     (if \<not> Active cb
      then Some (conn\<lparr>resolved_c :=
                   Resolve cb (Failure (conn_err ErrKindRequest ErrRequestIsNotActive)) off
                     (resolved_c conn)\<rparr>)
      else SendBatchFlags_conn sc reqs (transactionFuture cb (int (length reqs)) off) 0
             DoTransaction conn)"

subsection \<open>Writer and reader\<close>

text \<open>
  Modelled from the spec: \<open>conn.call\<close> (and \<open>fut.call\<close> in redisconn/conn.go) is not among
  the sources. The spec says the reader pops the head of the batch and invokes
  \<open>resolve(value, index)\<close> with the index stored in the entry.
\<close>

definition call :: "future \<Rightarrow> result \<Rightarrow> resolution list \<Rightarrow> resolution list" where
  "call fut res log = Resolve (Future fut) res (N fut) log"

definition call_conn :: "future_c \<Rightarrow> result \<Rightarrow> resolution list \<Rightarrow> resolution list" where
  "call_conn fut res log = Resolve (fst fut) res (snd fut) log"

text \<open>
  The writer's loop over a swapped-out shard list (request_writer.go): each request is
  serialized into the packet; a future whose request fails is resolved with the error
  and dropped from the batch handed to the reader.
\<close>

fun writer_pack ::
  "strconv \<Rightarrow> future list \<Rightarrow> bytes \<times> future list \<times> resolution list
     \<Rightarrow> bytes \<times> future list \<times> resolution list" where
  "writer_pack sc [] acc = acc"
| "writer_pack sc (fut # futs) (packet, kept, log) =
     (case AppendRequest sc packet (req fut) of
        Inl e \<Rightarrow> writer_pack sc futs ([], kept, call fut (Failure e) log)
      | Inr packet \<Rightarrow> writer_pack sc futs (packet, kept @ [fut], log))"

text \<open>
  The reader: the k-th response read from the socket resolves the k-th future of the
  batches handed over by the writer. The loop stops when either runs out.
\<close>

fun reader_resolve :: "future list \<Rightarrow> result list \<Rightarrow> resolution list \<Rightarrow> resolution list" where
  "reader_resolve (fut # futs) (res # ress) log = reader_resolve futs ress (call fut res log)"
| "reader_resolve futs ress log = log"

fun reader_resolve_conn :: "future_c list \<Rightarrow> result list \<Rightarrow> resolution list \<Rightarrow> resolution list" where
  "reader_resolve_conn (fut # futs) (res # ress) log =
     reader_resolve_conn futs ress (call_conn fut res log)"
| "reader_resolve_conn futs ress log = log"

subsection \<open>Example values\<close>

definition GET_a :: Request where
  "GET_a = \<lparr>Cmd = ''GET'', Args = [AString ''a'']\<rparr>"

definition GET_struct :: Request where
  "GET_struct = \<lparr>Cmd = ''GET'', Args = [AOther ''struct {}'']\<rparr>"

definition example_conn :: "conn_state \<Rightarrow> Connection" where
  "example_conn s = \<lparr>state = s, shardid = 0, shard = [[], []], dirtyShard = [],
                      Concurrency = 2, resolved = []\<rparr>"

definition example_conn_c :: "conn_state \<Rightarrow> Connection_c" where
  "example_conn_c s = \<lparr>state_c = s, shardid_c = 0,
                        shard_c = [\<lparr>buf_c = [], futures_c = []\<rparr>, \<lparr>buf_c = [], futures_c = []\<rparr>],
                        dirtyShard_c = [], Concurrency_c = 2, resolved_c = []\<rparr>"

subsection \<open>Errors and projections named by the claims\<close>

text \<open>
  The error a closed connection answers with: \<open>ContextClosed\<close>, tagged with the
  connection, wrapping the context's error.
\<close>

definition ContextClosed_error :: error where
  "ContextClosed_error =
     RedisError ErrKindContext ErrContextClosed [(''connection'', CtxConnection)] (Some ContextErr)"

text \<open>
  The two errors of a malformed batch as \<open>SendBatchFlags\<close> builds them from the error
  \<open>e\<close> of \<open>CheckArgs\<close> on request \<open>i\<close>.
\<close>

definition batch_err :: "Request list \<Rightarrow> nat \<Rightarrow> error \<Rightarrow> error" where
  "batch_err requests i e =
     With ''request'' (CtxRequest (requests ! i)) (With ''connection'' CtxConnection e)"

definition batch_commonerr :: "Request list \<Rightarrow> nat \<Rightarrow> error \<Rightarrow> error" where
  "batch_commonerr requests i e =
     With ''request'' (CtxRequest (requests ! i))
       (With ''requests'' (CtxRequests requests)
         (Wrap (batch_err requests i e) (conn_err ErrKindRequest ErrBatchFormat)))"

definition indices :: "resolution list \<Rightarrow> 64 word list" where
  "indices log = map (\<lambda>(c, res, n). n) log"

section \<open>The dirty-shard notification as a transition system\<close>

text \<open>
  The producers, the writer tasks and the state machine act on the shards and on the
  channel \<open>dirtyShard\<close> in steps that the shard locks make atomic: an enqueue
  (\<open>doSend\<close>, \<open>doSendBatch\<close>) runs under one shard lock; the writer receives a shard
  number from the channel, and later, under that shard's lock, swaps the shard's list
  with its own local list \<open>futures\<close>; \<open>dropShardFutures\<close> runs under all shard locks.
  Between the writer's receive and its swap (it may sleep for \<open>WritePause\<close> there) the
  other tasks can run.

  A writer is \<open>Parked\<close> before it receives a shard number, \<open>Received n\<close> between the
  receive and the swap, and \<open>Swapped\<close> while it packs the list it took and hands it to
  the reader; then it takes a fresh empty list and polls the channel again. A session's
  writer that is still running when the next session starts is one more writer.
\<close>

datatype wphase = Parked | Received nat | Swapped

record writer =
  phase :: wphase
  wfutures :: "future list"

record system =
  connection :: Connection
  writers :: "writer list"

text \<open>
  \<open>dropShardFutures\<close>: empty the channel, resolve every pending future with the error,
  clear the shards.
\<close>

definition dropShardFutures :: "error \<Rightarrow> Connection \<Rightarrow> Connection" where
  "dropShardFutures e c =
     c\<lparr>dirtyShard := [],
       resolved := fold (\<lambda>fut log. call fut (Failure e) log) (concat (shard c)) (resolved c),
       shard := map (\<lambda>sh. []) (shard c)\<rparr>"

datatype action =
    ASend int Request Future "64 word" bool
  | ABatch int "Request list" Future "64 word" int
  | ARecv nat
  | ASwap nat
  | AHandoff nat
  | ADrop error conn_state
  | ASetState conn_state
  | ASpawn

text \<open>
  One step; \<open>None\<close> when the action cannot run (a blocked channel send, an empty channel
  for the receive, a writer in another phase, a shard number out of range, where Go
  panics). \<open>ADrop\<close> is \<open>closeConnection\<close> or a failed
  \<open>createConnection\<close>: it stores the new state and drops the futures. \<open>ASetState\<close> is
  the state store of \<open>createConnection\<close>; \<open>ASpawn\<close> the start of a session's writer.
\<close>

fun exec :: "strconv \<Rightarrow> action \<Rightarrow> system \<Rightarrow> system option" where
  "exec sc (ASend now r cb n asking) S =
     map_option (\<lambda>(e, c). S\<lparr>connection := c\<rparr>) (doSend now r cb n asking (connection S))"
| "exec sc (ABatch now rs cb st flags) S =
     map_option (\<lambda>(e, c). S\<lparr>connection := c\<rparr>) (doSendBatch now rs cb st flags (connection S))"
| "exec sc (ARecv i) S =
     (if i < length (writers S) \<and> phase (writers S ! i) = Parked
      then (case dirtyShard (connection S) of
              [] \<Rightarrow> None
            | shardn # rest \<Rightarrow>
                Some (S\<lparr>connection := (connection S)\<lparr>dirtyShard := rest\<rparr>,
                        writers := (writers S)[i := (writers S ! i)\<lparr>phase := Received (unat shardn)\<rparr>]\<rparr>))
      else None)"
| "exec sc (ASwap i) S =
     (if i < length (writers S)
      then (case phase (writers S ! i) of
              Received shardn \<Rightarrow>
                if shardn < length (shard (connection S))
                then Some (S\<lparr>connection := (connection S)\<lparr>shard :=
                                (shard (connection S))[shardn := wfutures (writers S ! i)]\<rparr>,
                             writers := (writers S)[i := \<lparr>phase = Swapped,
                                            wfutures = shard (connection S) ! shardn\<rparr>]\<rparr>)
                else None
            | _ \<Rightarrow> None)
      else None)"
| "exec sc (AHandoff i) S =
     (if i < length (writers S) \<and> phase (writers S ! i) = Swapped
      then (case writer_pack sc (wfutures (writers S ! i)) ([], [], resolved (connection S)) of
              (packet, kept, log) \<Rightarrow>
                Some (S\<lparr>connection := (connection S)\<lparr>resolved := log\<rparr>,
                        writers := (writers S)[i := \<lparr>phase = Parked, wfutures = []\<rparr>]\<rparr>))
      else None)"
| "exec sc (ADrop e st) S = Some (S\<lparr>connection := dropShardFutures e ((connection S)\<lparr>state := st\<rparr>)\<rparr>)"
| "exec sc (ASetState st) S = Some (S\<lparr>connection := (connection S)\<lparr>state := st\<rparr>\<rparr>)"
| "exec sc ASpawn S = Some (S\<lparr>writers := writers S @ [\<lparr>phase = Parked, wfutures = []\<rparr>]\<rparr>)"

fun run :: "strconv \<Rightarrow> action list \<Rightarrow> system \<Rightarrow> system option" where
  "run sc [] S = Some S"
| "run sc (a # as) S = (case exec sc a S of None \<Rightarrow> None | Some S' \<Rightarrow> run sc as S')"

text \<open>The connection as \<open>Connect\<close> leaves it: every shard empty, nothing on the channel.\<close>

definition initial :: "Connection \<Rightarrow> bool" where
  "initial c \<longleftrightarrow> conn_ok c \<and> shard c = replicate (unat (Concurrency c)) [] \<and> dirtyShard c = []"

definition start_system :: "Connection \<Rightarrow> system" where
  "start_system c = \<lparr>connection = c, writers = []\<rparr>"

text \<open>
  A notification for shard \<open>n\<close> is owed to the writer: it is on the channel, or a writer
  has received it and has not swapped the shard's list yet.
\<close>

definition notified :: "system \<Rightarrow> nat \<Rightarrow> bool" where
  "notified S n \<longleftrightarrow>
     of_nat n \<in> set (dirtyShard (connection S)) \<or> Received n \<in> set (map phase (writers S))"

definition store_futures :: "nat \<Rightarrow> future list \<Rightarrow> Connection \<Rightarrow> Connection" where
  "store_futures shardn futures c = c\<lparr>shard := (shard c)[shardn := futures]\<rparr>"

text \<open>
  The invariant of the transition system: a non-empty shard is notified, and a writer
  holds futures in its local list only between its swap and its hand-over.
\<close>

definition notify_inv :: "system \<Rightarrow> bool" where
  "notify_inv S \<longleftrightarrow>
     conn_ok (connection S)
     \<and> (\<forall>n < length (shard (connection S)). shard (connection S) ! n \<noteq> [] \<longrightarrow> notified S n)
     \<and> (\<forall>w \<in> set (writers S). phase w \<noteq> Swapped \<longrightarrow> wfutures w = [])"

text \<open>
  Two runs. In the first a request is enqueued and the writer receives the notification.
  In the second the reader fails while the writer holds a shard number it has not
  swapped yet: the reconnect drops the futures, producers enqueue again, the writer of
  the old session swaps the refilled shard, and the next enqueue notifies once more.
\<close>

definition run_received :: "action list" where
  "run_received =
     [ASetState connConnecting, ASpawn, ASetState connConnected,
      ASend 0 GET_a (Callback 1 False) 3 False, ARecv 0]"

definition run_stale :: "action list" where
  "run_stale =
     [ASetState connConnecting, ASpawn, ASetState connConnected,
      ASend 0 GET_a (Callback 1 False) 0 False, ARecv 0,
      ADrop (NetErr ''read: EOF'') connDisconnected, ASetState connConnecting,
      ASend 0 GET_a (Callback 2 False) 0 False, ASend 0 GET_a (Callback 3 False) 0 False,
      ASwap 0, AHandoff 0,
      ASend 0 GET_a (Callback 4 False) 0 False, ASend 0 GET_a (Callback 5 False) 0 False]"

section \<open>Properties of the serializer\<close>

lemma byte_small:
  fixes w :: "64 word"
  assumes "unat w < 10"
  shows "byte (ucast w + 48) = digit (unat w)"
proof -
  have "unat (ucast w :: 8 word) = unat w"
    using assms by (simp add: unsigned_ucast_eq take_bit_nat_eq_self)
  then have "unat ((ucast w :: 8 word) + 48) = unat w + 48"
    using assms by (simp add: unat_word_ariths)
  then show ?thesis by (simp add: byte_def digit_def add.commute)
qed

lemma word_digit:
  fixes u :: "64 word"
  shows "byte (ucast (u - (u div 10) * 10) + 48) = digit (unat u mod 10)"
proof -
  have "u - (u div 10) * 10 = u mod 10"
    by (metis add_diff_cancel_left' word_mod_div_equality)
  moreover have "unat (u mod 10) = unat u mod 10"
    by (simp add: unat_mod)
  ultimately have a: "unat (u - (u div 10) * 10) = unat u mod 10" by simp
  then have "unat (u - (u div 10) * 10) < 10" by simp
  from byte_small [OF this] a show ?thesis by simp
qed

lemma uint_digits_decimal:
  "uint_digits u ds = (if u = 0 then ds else decimal (unat u) @ ds)"
proof (induction u ds rule: uint_digits.induct)
  case (1 u ds)
  show ?case
  proof (cases "u = 0")
    case True
    then show ?thesis by (subst uint_digits.simps) simp
  next
    case False
    then have pos: "0 < u" by (simp add: word_greater_zero_iff)
    let ?n = "u div 10"
    let ?d = "byte (ucast (u - ?n * 10) + 48)"
    have step: "uint_digits u ds = uint_digits ?n (?d # ds)"
      using pos by (subst uint_digits.simps) (simp add: Let_def)
    have ih: "uint_digits ?n (?d # ds) = (if ?n = 0 then ?d # ds else decimal (unat ?n) @ ?d # ds)"
      using "1.IH" [OF pos refl] .
    have un: "unat ?n = unat u div 10" by (simp add: unat_div)
    have n0: "?n = 0 \<longleftrightarrow> unat u < 10"
      by (metis un unat_eq_0 div_eq_0_iff zero_neq_numeral)
    show ?thesis
    proof (cases "unat u < 10")
      case True
      then show ?thesis using step ih n0 False
        by (simp add: word_digit decimal.simps [of "unat u"])
    next
      case False
      then show ?thesis using step ih n0 un \<open>u \<noteq> 0\<close>
        by (simp add: word_digit decimal.simps [of "unat u"])
    qed
  qed
qed

lemma decimal_small: "n < 10 \<Longrightarrow> decimal n = [digit n]"
  by (subst decimal.simps) simp

lemma decimal_big: "10 \<le> n \<Longrightarrow> decimal n = decimal (n div 10) @ [digit (n mod 10)]"
  by (subst decimal.simps) simp

lemma uint_nonneg:
  fixes i :: "64 word"
  assumes "0 \<le> sint i"
  shows "uint i = sint i"
proof -
  have "sint i < 2 ^ 64" using sint_lt [of i] by simp
  then have "sint i mod 2 ^ 64 = sint i" using assms by simp
  then show ?thesis using uint_sint [of i] by (simp add: take_bit_eq_mod)
qed

lemma uint_neg:
  fixes i :: "64 word"
  assumes "sint i < 0"
  shows "uint (- i) = - sint i"
proof -
  have lo: "- (2 ^ 63) \<le> sint i" using sint_ge [of i] by simp
  have "uint (- i) = (- uint i) mod 2 ^ 64" by (simp add: uint_word_ariths)
  also have "uint i = sint i mod 2 ^ 64" using uint_sint [of i] by (simp add: take_bit_eq_mod)
  also have "(- (sint i mod 2 ^ 64)) mod 2 ^ 64 = (- sint i) mod 2 ^ 64"
    by (simp add: mod_minus_eq)
  also have "\<dots> = - sint i" using assms lo by simp
  finally show ?thesis .
qed

lemma unat_nonneg: "0 \<le> sint (i :: 64 word) \<Longrightarrow> unat i = nat (sint i)"
  using uint_nonneg [of i] by (simp add: unat_eq_nat_uint del: nat_uint_eq)

lemma unat_neg: "sint (i :: 64 word) < 0 \<Longrightarrow> unat (- i) = nat (- sint i)"
  using uint_neg [of i] by (simp add: unat_eq_nat_uint del: nat_uint_eq)

lemma appendUint_decimal: "appendUint b u = b @ (if u = 0 then [] else decimal (unat u))"
  by (simp add: appendUint_def uint_digits_decimal)

lemma appendInt_decimal: "appendInt b i = b @ decimal_int (sint i)"
proof -
  consider (small) "0 \<le> sint i" "sint i \<le> 9" | (big) "9 < sint i" | (neg) "sint i < 0"
    by linarith
  then show ?thesis
  proof cases
    case small
    then have u: "unat i = nat (sint i)" by (simp add: unat_nonneg)
    then have "unat i < 10" using small by simp
    then have "byte (ucast i + 48) = digit (unat i)" by (rule byte_small)
    moreover have "decimal (nat (sint i)) = [digit (nat (sint i))]"
      using small by (simp add: decimal_small)
    ultimately show ?thesis using small u
      by (simp add: appendInt_def word_sle_eq decimal_int_def)
  next
    case big
    then have u: "unat i = nat (sint i)" by (simp add: unat_nonneg)
    have "i \<noteq> 0" using big by auto
    then show ?thesis using big u
      by (simp add: appendInt_def word_sle_eq word_sless_alt decimal_int_def appendUint_decimal)
  next
    case neg
    then have u: "unat (- i) = nat (- sint i)" by (rule unat_neg)
    have "i \<noteq> 0" using neg by auto
    then have "- i \<noteq> 0" by simp
    then show ?thesis using neg u
      by (simp add: appendInt_def word_sle_eq word_sless_alt decimal_int_def appendUint_decimal)
  qed
qed

lemma decimal_length_le: "0 < k \<Longrightarrow> n < 10 ^ k \<Longrightarrow> length (decimal n) \<le> k"
proof (induction n arbitrary: k rule: decimal.induct)
  case (1 n)
  show ?case
  proof (cases "n < 10")
    case True
    then show ?thesis using "1.prems" by (simp add: decimal_small)
  next
    case False
    then obtain j where k: "k = Suc j" and j: "0 < j"
      using "1.prems" by (cases k; cases "k - 1") auto
    have "n div 10 < 10 ^ j" using "1.prems" k by (simp add: less_mult_imp_div_less mult.commute)
    from "1.IH" [OF False j this] show ?thesis using False k by (simp add: decimal_big)
  qed
qed

lemma decimal_length_gt: "10 ^ k \<le> n \<Longrightarrow> k < length (decimal n)"
proof (induction n arbitrary: k rule: decimal.induct)
  case (1 n)
  show ?case
  proof (cases "n < 10")
    case True
    then have "(10::nat) ^ k < 10 ^ 1" using "1.prems" by simp
    then have "k < 1" by (rule power_less_imp_less_exp [rotated]) simp
    then have "k = 0" by simp
    then show ?thesis using True by (simp add: decimal_small)
  next
    case False
    show ?thesis
    proof (cases k)
      case 0
      then show ?thesis using False by (simp add: decimal_big)
    next
      case (Suc j)
      then have "10 ^ j \<le> n div 10" using "1.prems" by (simp add: less_eq_div_iff_mult_less_eq mult.commute)
      from "1.IH" [OF False this] show ?thesis using False Suc by (simp add: decimal_big)
    qed
  qed
qed

lemma decimal_two: "10 \<le> n \<Longrightarrow> n < 100 \<Longrightarrow> decimal n = [digit (n div 10), digit (n mod 10)]"
  by (simp add: decimal_big decimal_small)

lemma byte_of_nat: "m < 208 \<Longrightarrow> byte (of_nat m + 48) = digit m"
proof -
  assume m: "m < 208"
  then have "unat (of_nat m :: 8 word) = m" by (simp add: unat_of_nat)
  then have "unat ((of_nat m :: 8 word) + 48) = m + 48" using m by (simp add: unat_word_ariths)
  then show ?thesis by (simp add: byte_def digit_def add.commute)
qed

lemma patch_len_short:
  assumes "length s < 10"
  shows "patch_len (b @ [c, x] @ CRLF @ s) (length (b @ [c, x] @ CRLF)) = b @ [c, digit (length s)] @ CRLF @ s"
proof -
  have lt: "(of_nat (length s) :: 8 word) < 10"
    using assms by (simp add: word_less_nat_alt unat_of_nat)
  have d: "byte (of_nat (length s) + 48) = digit (length s)"
    using assms by (simp add: byte_of_nat)
  show ?thesis using lt d
    by (simp add: patch_len_def CRLF_def list_update_append)
qed

lemma patch_len_long:
  assumes "10 \<le> length s" "length s < 100"
  shows "patch_len (b @ [c, x, y] @ CRLF @ s) (length (b @ [c, x, y] @ CRLF))
         = b @ [c, digit (length s div 10), digit (length s mod 10)] @ CRLF @ s"
proof -
  let ?li = "of_nat (length s) :: 8 word"
  have u: "unat ?li = length s" using assms by (simp add: unat_of_nat)
  have ge: "\<not> ?li < 10"
    using assms u by (simp add: word_less_nat_alt)
  have "unat (?li div 10) = length s div 10" using u by (simp add: unat_div)
  then have dd: "?li div 10 = of_nat (length s div 10)"
    by (metis of_nat_unat ucast_id)
  have "?li - (?li div 10) * 10 = ?li mod 10"
    by (metis add_diff_cancel_left' word_mod_div_equality)
  moreover have "unat (?li mod 10) = length s mod 10" using u by (simp add: unat_mod)
  ultimately have mm: "?li - (?li div 10) * 10 = of_nat (length s mod 10)"
    by (metis of_nat_unat ucast_id)
  have d1: "byte (?li div 10 + 48) = digit (length s div 10)"
    using assms by (simp add: dd byte_of_nat)
  have d0: "byte (?li - (?li div 10) * 10 + 48) = digit (length s mod 10)"
    by (simp only: mm) (simp add: byte_of_nat)
  show ?thesis using ge d1 d0
    by (simp add: patch_len_def Let_def CRLF_def list_update_append)
qed

lemma bulk_head_short: "length s < 10 \<Longrightarrow> bulk_head s = [CHR ''$'', digit (length s)] @ CRLF"
  by (simp add: bulk_head_def decimal_small)

lemma bulk_head_long: "10 \<le> length s \<Longrightarrow> length s < 100 \<Longrightarrow>
    bulk_head s = [CHR ''$'', digit (length s div 10), digit (length s mod 10)] @ CRLF"
  by (simp add: bulk_head_def decimal_two)

lemma uint_digits_length_small:
  fixes u :: "64 word"
  assumes "u \<le> 999999999"
  shows "length (uint_digits u []) < 10"
proof (cases "u = 0")
  case True
  then show ?thesis by (simp add: uint_digits_decimal)
next
  case False
  have "unat u \<le> 999999999" using assms by (simp add: word_le_nat_alt)
  then have "unat u < 10 ^ 9" by simp
  then have "length (decimal (unat u)) \<le> 9" by (intro decimal_length_le) simp_all
  then show ?thesis using False by (simp add: uint_digits_decimal)
qed

lemma uint_digits_length_big:
  fixes u :: "64 word"
  assumes "\<not> u \<le> 999999999"
  shows "10 \<le> length (uint_digits u []) \<and> length (uint_digits u []) \<le> 20"
proof -
  have nz: "u \<noteq> 0" using assms by auto
  have "999999999 < unat u" using assms by (simp add: word_le_nat_alt)
  then have "10 ^ 9 \<le> unat u" by simp
  then have a: "9 < length (decimal (unat u))" by (rule decimal_length_gt)
  have "unat u < 2 ^ 64" using unsigned_less [of u, where 'a = nat] by simp
  then have "unat u < 10 ^ 20" by simp
  then have "length (decimal (unat u)) \<le> 20" by (intro decimal_length_le) simp_all
  then show ?thesis using a nz by (simp add: uint_digits_decimal)
qed

lemma uint_digits_length: "length (uint_digits u []) \<le> 20"
  using uint_digits_length_small [of u] uint_digits_length_big [of u]
  by (cases "u \<le> 999999999") auto

lemma appendBulkUint_bulk:
  "appendBulkUint b u = b @ bulk_head (uint_digits u []) @ uint_digits u []"
proof (cases "u \<le> 999999999")
  case True
  then have len: "length (uint_digits u []) < 10" by (rule uint_digits_length_small)
  have "appendBulkUint b u =
        patch_len (b @ [CHR ''$'', CHR ''0''] @ CRLF @ uint_digits u [])
                  (length (b @ [CHR ''$'', CHR ''0''] @ CRLF))"
    using True by (simp add: appendBulkUint_def appendUint_def Let_def)
  also have "\<dots> = b @ [CHR ''$'', digit (length (uint_digits u []))] @ CRLF @ uint_digits u []"
    using len by (rule patch_len_short)
  finally show ?thesis using len by (simp add: bulk_head_short)
next
  case False
  then have len: "10 \<le> length (uint_digits u [])" "length (uint_digits u []) < 100"
    using uint_digits_length_big [of u] by auto
  let ?s = "uint_digits u []"
  have "appendBulkUint b u =
        patch_len (b @ [CHR ''$'', CHR ''1'', CHR ''0''] @ CRLF @ ?s)
                  (length (b @ [CHR ''$'', CHR ''1'', CHR ''0''] @ CRLF))"
    using False by (simp add: appendBulkUint_def appendUint_def Let_def)
  also have "\<dots> = b @ [CHR ''$'', digit (length ?s div 10), digit (length ?s mod 10)] @ CRLF @ ?s"
    using len by (rule patch_len_long)
  finally show ?thesis using len by (simp add: bulk_head_long)
qed

lemma decimal_int_length_small:
  assumes "- 99999999 \<le> k" "k \<le> 999999999"
  shows "length (decimal_int k) < 10"
proof (cases "k < 0")
  case True
  then have "nat (- k) < 10 ^ 8" using assms by simp
  then have "length (decimal (nat (- k))) \<le> 8" by (intro decimal_length_le) simp_all
  then show ?thesis using True by (simp add: decimal_int_def)
next
  case False
  then have "nat k < 10 ^ 9" using assms by simp
  then have "length (decimal (nat k)) \<le> 9" by (intro decimal_length_le) simp_all
  then show ?thesis using False by (simp add: decimal_int_def)
qed

lemma decimal_int_length_big:
  assumes "\<not> (- 99999999 \<le> k \<and> k \<le> 999999999)" "- (2 ^ 63) \<le> k" "k < 2 ^ 63"
  shows "10 \<le> length (decimal_int k) \<and> length (decimal_int k) < 100"
proof (cases "k < 0")
  case True
  then have "10 ^ 8 \<le> nat (- k)" using assms by simp
  then have a: "8 < length (decimal (nat (- k)))" by (rule decimal_length_gt)
  have "nat (- k) < 10 ^ 19" using assms by simp
  then have "length (decimal (nat (- k))) \<le> 19" by (intro decimal_length_le) simp_all
  then show ?thesis using True a by (simp add: decimal_int_def)
next
  case False
  then have "10 ^ 9 \<le> nat k" using assms by simp
  then have a: "9 < length (decimal (nat k))" by (rule decimal_length_gt)
  have "nat k < 10 ^ 19" using assms by simp
  then have "length (decimal (nat k)) \<le> 19" by (intro decimal_length_le) simp_all
  then show ?thesis using False a by (simp add: decimal_int_def)
qed

lemma appendBulkInt_bulk:
  "appendBulkInt b i = b @ bulk_head (decimal_int (sint i)) @ decimal_int (sint i)"
proof (cases "- 99999999 \<le> sint i \<and> sint i \<le> 999999999")
  case True
  let ?s = "decimal_int (sint i)"
  have len: "length ?s < 10" using True by (simp add: decimal_int_length_small)
  have c: "(- 99999999 \<le>s i \<and> i \<le>s 999999999) = True"
    using True by (simp add: word_sle_eq)
  have "appendBulkInt b i =
        patch_len (b @ [CHR ''$'', CHR ''0''] @ CRLF @ ?s)
                  (length (b @ [CHR ''$'', CHR ''0''] @ CRLF))"
    unfolding appendBulkInt_def c by (simp add: appendInt_decimal Let_def)
  also have "\<dots> = b @ [CHR ''$'', digit (length ?s)] @ CRLF @ ?s"
    using len by (rule patch_len_short)
  finally show ?thesis using len by (simp add: bulk_head_short)
next
  case False
  let ?s = "decimal_int (sint i)"
  have "- (2 ^ 63) \<le> sint i" "sint i < 2 ^ 63"
    using sint_ge [of i] sint_lt [of i] by simp_all
  then have len: "10 \<le> length ?s" "length ?s < 100"
    using decimal_int_length_big [OF False] by auto
  have c: "(- 99999999 \<le>s i \<and> i \<le>s 999999999) = False"
    using False by (simp add: word_sle_eq)
  have "appendBulkInt b i =
        patch_len (b @ [CHR ''$'', CHR ''0'', CHR ''0''] @ CRLF @ ?s)
                  (length (b @ [CHR ''$'', CHR ''0'', CHR ''0''] @ CRLF))"
    unfolding appendBulkInt_def c by (simp add: appendInt_decimal Let_def)
  also have "\<dots> = b @ [CHR ''$'', digit (length ?s div 10), digit (length ?s mod 10)] @ CRLF @ ?s"
    using len by (rule patch_len_long)
  finally show ?thesis using len by (simp add: bulk_head_long)
qed

lemma appendHead_len:
  assumes "n < 2 ^ 63"
  shows "appendHead b t (of_nat n) = b @ t # decimal n @ CRLF"
proof -
  have "sint (of_nat n :: 64 word) = int n"
    using assms by (simp add: signed_of_nat signed_take_bit_int_eq_self)
  then show ?thesis by (simp add: appendHead_def appendInt_decimal decimal_int_def)
qed

lemma find_space_append:
  "find_space (xs @ ys) i sp = find_space ys (i + length xs) (find_space xs i sp)"
  by (induction xs arbitrary: i sp) auto

lemma find_space_none: "CHR '' '' \<notin> set cs \<Longrightarrow> find_space cs i sp = sp"
  by (induction cs arbitrary: i) auto

lemma find_space_last:
  "CHR '' '' \<notin> set suf \<Longrightarrow> find_space (pre @ CHR '' '' # suf) 0 sp = int (length pre)"
  by (simp add: find_space_append find_space_none)

lemma appendHead_int:
  assumes "n < 2 ^ 63"
  shows "appendHead b t (of_int (int n)) = b @ t # decimal n @ CRLF"
  using appendHead_len [OF assms] by simp

lemma appendCmd_two_words:
  assumes cmd: "Cmd rq = pre @ CHR '' '' # suf" and suf: "CHR '' '' \<notin> set suf"
    and len: "length (Cmd rq) < 2 ^ 63" and args: "length (Args rq) + 2 < 2 ^ 63"
  shows "appendCmd buf rq = buf @ array_head (length (Args rq) + 2) @ bulk pre @ bulk suf"
proof -
  have sp: "find_space (Cmd rq) 0 (- 1) = int (length pre)"
    using cmd suf by (simp add: find_space_last)
  have lp: "length pre < 2 ^ 63" and ls: "length suf < 2 ^ 63"
    using cmd len by simp_all
  have rest: "int (length (Cmd rq)) - int (length pre) - 1 = int (length suf)"
    using cmd by simp
  have h1: "appendHead buf (CHR ''*'') (of_nat (length (Args rq) + 2))
            = buf @ array_head (length (Args rq) + 2)"
    using appendHead_len [OF args] by (simp add: array_head_def)
  show ?thesis
    unfolding appendCmd_def sp Let_def rest h1
    using appendHead_int [OF lp] appendHead_int [OF ls] cmd
    by (simp add: bulk_def bulk_head_def)
qed

lemma appendCmd_one_word:
  assumes nosp: "CHR '' '' \<notin> set (Cmd rq)"
    and len: "length (Cmd rq) < 2 ^ 63" and args: "length (Args rq) + 1 < 2 ^ 63"
  shows "appendCmd buf rq = buf @ array_head (length (Args rq) + 1) @ bulk (Cmd rq)"
proof -
  have sp: "find_space (Cmd rq) 0 (- 1) = - 1"
    using nosp by (simp add: find_space_none)
  have h1: "appendHead buf (CHR ''*'') (of_nat (length (Args rq) + 1))
            = buf @ array_head (length (Args rq) + 1)"
    using appendHead_len [OF args] by (simp add: array_head_def)
  show ?thesis
    unfolding appendCmd_def sp Let_def h1
    using appendHead_len [OF len]
    by (simp add: bulk_def bulk_head_def)
qed

lemma digit_0: "digit 0 = CHR ''0''"
  by code_simp

lemma digit_1: "digit (Suc 0) = CHR ''1''"
  by code_simp

lemma decimal_0: "decimal 0 = ''0''"
  by (simp add: decimal_small digit_0)

lemma decimal_1: "decimal (Suc 0) = ''1''"
  by (simp add: decimal_small digit_1)

lemma appendArg_payload:
  assumes "length (fst (ArgToString sc a)) < 2 ^ 63"
  shows "appendArg sc buf a =
           (if snd (ArgToString sc a)
            then Some (buf @ bulk_head (fst (ArgToString sc a)) @ fst (ArgToString sc a))
            else None)"
proof (cases a)
  case (ABool v)
  then show ?thesis by (cases v) (simp_all add: bulk_head_def decimal_1)
next
  case ANil
  then show ?thesis by (simp add: bulk_head_def decimal_0)
qed (use assms in \<open>simp_all add: appendHead_len bulk_head_def appendBulkInt_bulk appendBulkUint_bulk
       appendInt_decimal appendUint_def Let_def\<close>)

lemma last_space_split:
  assumes "CHR '' '' \<notin> set suf"
  shows "before_last_space (pre @ CHR '' '' # suf) = pre"
    and "after_last_space (pre @ CHR '' '' # suf) = suf"
proof -
  let ?P = "\<lambda>c. c \<noteq> CHR '' ''"
  have a: "\<And>c. c \<in> set (rev suf) \<Longrightarrow> ?P c" using assms by auto
  have r: "rev (pre @ CHR '' '' # suf) = rev suf @ CHR '' '' # rev pre" by simp
  have d: "dropWhile ?P (rev suf @ CHR '' '' # rev pre) = CHR '' '' # rev pre"
    using a by (subst dropWhile_append2) simp_all
  have t: "takeWhile ?P (rev suf @ CHR '' '' # rev pre) = rev suf"
    using a by (subst takeWhile_append2) simp_all
  show "before_last_space (pre @ CHR '' '' # suf) = pre"
    unfolding before_last_space_def after_first_space_def r d by simp
  show "after_last_space (pre @ CHR '' '' # suf) = suf"
    unfolding after_last_space_def before_first_space_def r t by simp
qed

lemma appendArg_None: "appendArg sc buf a = None \<longleftrightarrow> \<not> snd (ArgToString sc a)"
  by (cases a) (simp_all add: Let_def)

lemma ArgToString_unsupported: "\<not> snd (ArgToString sc a) \<Longrightarrow> ArgToString sc a = ([], False)"
  by (cases a) simp_all

lemma appendArgs_supported:
  assumes "\<forall>a \<in> set vals. length (fst (ArgToString sc a)) < 2 ^ 63"
    and "\<forall>a \<in> set vals. snd (ArgToString sc a)"
  shows "appendArgs sc rq buf vals
         = Inr (buf @ concat (map (\<lambda>a. bulk (fst (ArgToString sc a))) vals))"
  using assms
proof (induction vals arbitrary: buf)
  case Nil
  then show ?case by simp
next
  case (Cons v vals)
  then have "appendArg sc buf v = Some (buf @ bulk_head (fst (ArgToString sc v)) @ fst (ArgToString sc v))"
    by (simp add: appendArg_payload)
  then show ?case using Cons by (simp add: bulk_def)
qed

lemma appendArgs_unsupported:
  assumes "\<exists>a \<in> set vals. \<not> snd (ArgToString sc a)"
  shows "isl (appendArgs sc rq buf vals)"
  using assms
proof (induction vals arbitrary: buf)
  case Nil
  then show ?case by simp
next
  case (Cons v vals)
  show ?case
  proof (cases "appendArg sc buf v")
    case None
    then show ?thesis by simp
  next
    case (Some b)
    then have "snd (ArgToString sc v)" using appendArg_None [of sc buf v] by auto
    then have "\<exists>a \<in> set vals. \<not> snd (ArgToString sc a)" using Cons.prems by auto
    then show ?thesis using Cons.IH Some by simp
  qed
qed

lemma unat_ucast_up:
  fixes v :: "'a::len word"
  assumes "LENGTH('a) \<le> 64"
  shows "unat (ucast v :: 64 word) = unat v"
proof -
  have "unat v < 2 ^ LENGTH('a)" by (rule unsigned_less)
  also have "(2::nat) ^ LENGTH('a) \<le> 2 ^ 64" using assms by (intro power_increasing) simp_all
  finally show ?thesis by (simp add: unsigned_ucast_eq take_bit_nat_eq_self)
qed

lemma ucast_up_zero:
  fixes v :: "'a::len word"
  assumes "LENGTH('a) \<le> 64"
  shows "(ucast v :: 64 word) = 0 \<longleftrightarrow> v = 0"
  using unat_ucast_up [OF assms, of v] by (metis unat_eq_0)

lemma sint_scast_up:
  fixes v :: "'a::len word"
  assumes "LENGTH('a) \<le> 64"
  shows "sint (scast v :: 64 word) = sint v"
proof -
  have "- (2 ^ (LENGTH('a) - 1)) \<le> sint v" "sint v < 2 ^ (LENGTH('a) - 1)"
    by (rule sint_ge, rule sint_lt)
  moreover have "(2::int) ^ (LENGTH('a) - 1) \<le> 2 ^ 63" using assms by (intro power_increasing) simp_all
  ultimately have "- (2 ^ 63) \<le> sint v" "sint v < 2 ^ 63" by linarith+
  then show ?thesis by (simp add: signed_scast_eq signed_take_bit_int_eq_self)
qed

lemma ArgToString_canonical:
  assumes "\<not> unsigned_zero a"
  shows "ArgToString sc a = (case canonical sc a of Some s \<Rightarrow> (s, True) | None \<Rightarrow> ([], False))"
  using assms
  by (cases a)
     (simp_all add: appendInt_decimal appendUint_decimal ucast_up_zero unat_ucast_up sint_scast_up)

section \<open>Claims about the serializer\<close>

text \<open>
  C1. A request whose command name contains a space is written as an array of
  \<open>len(args)+2\<close> bulk strings, the name split in two at a space. The scan of
  \<open>AppendRequest\<close> keeps the last space it meets, so the split is at the last space
  of the name: the text before it and the text after it are the first two bulk strings.
  For a two-word name such as \<open>CLIENT LIST\<close> that is the only space.
\<close>

theorem AppendRequest_splits_at_last_space:
  assumes "CHR '' '' \<in> set (Cmd rq)"
    and "length (Cmd rq) < 2 ^ 63" and "length (Args rq) + 2 < 2 ^ 63"
  shows "AppendRequest sc buf rq
         = appendArgs sc rq
             (buf @ array_head (length (Args rq) + 2)
                  @ bulk (before_last_space (Cmd rq)) @ bulk (after_last_space (Cmd rq)))
             (Args rq)"
proof -
  from assms(1) obtain pre suf where cmd: "Cmd rq = pre @ CHR '' '' # suf"
    and suf: "CHR '' '' \<notin> set suf"
    by (auto dest: split_list_last)
  have "appendCmd buf rq = buf @ array_head (length (Args rq) + 2) @ bulk pre @ bulk suf"
    using cmd suf assms(2,3) by (rule appendCmd_two_words)
  then show ?thesis
    by (simp add: AppendRequest_def cmd last_space_split [OF suf])
qed

theorem AppendRequest_splits_at_last_space_witness:
  "CHR '' '' \<in> set ''CLIENT LIST'' \<and>
   AppendRequest strconv0 [] \<lparr>Cmd = ''CLIENT LIST'', Args = []\<rparr>
     = Inr (array_head 2 @ bulk ''CLIENT'' @ bulk ''LIST'')"
proof -
  let ?rq = "\<lparr>Cmd = ''CLIENT LIST'', Args = []\<rparr>"
  have h1: "CHR '' '' \<in> set (Cmd ?rq)" by simp
  have h2: "length (Cmd ?rq) < 2 ^ 63" by simp
  have h3: "length (Args ?rq) + 2 < 2 ^ 63" by simp
  have b: "before_last_space ''CLIENT LIST'' = ''CLIENT''" by code_simp
  have a: "after_last_space ''CLIENT LIST'' = ''LIST''" by code_simp
  show ?thesis
    using AppendRequest_splits_at_last_space [OF h1 h2 h3, of strconv0 "[]"] a b
    by (simp add: numeral_2_eq_2)
qed

text \<open>
  With more than one space the split is not at the first one: \<open>A B C\<close> is written as
  the bulk strings \<open>A B\<close> and \<open>C\<close>.
\<close>

theorem AppendRequest_first_space_counterexample:
  "CHR '' '' \<in> set (Cmd \<lparr>Cmd = ''A B C'', Args = []\<rparr>) \<and>
   AppendRequest strconv0 [] \<lparr>Cmd = ''A B C'', Args = []\<rparr>
     \<noteq> Inr (array_head 2 @ bulk (before_first_space ''A B C'') @ bulk (after_first_space ''A B C'')) \<and>
   AppendRequest strconv0 [] \<lparr>Cmd = ''A B C'', Args = []\<rparr>
     = Inr (array_head 2 @ bulk ''A B'' @ bulk ''C'')"
  by code_simp

text \<open>
  C3. The payload of the bulk string written for an argument is the canonical text of the
  argument. For an unsigned zero the loop of \<open>appendUint\<close> does not run and no digit
  is written: the payload is empty where the canonical text is \<open>0\<close>.
\<close>

theorem AppendRequest_unsigned_zero:
  "AppendRequest strconv0 [] \<lparr>Cmd = ''SET'', Args = [AString ''k'', AUint64 0]\<rparr>
     = Inr (array_head 3 @ bulk ''SET'' @ bulk ''k'' @ bulk [])
   \<and> canonical strconv0 (AUint64 0) = Some ''0''
   \<and> ArgToString strconv0 (AUint64 0) = ([], True)"
  by code_simp

text \<open>
  C4. \<open>ArgToString\<close> and \<open>AppendRequest\<close> agree: when \<open>AppendRequest\<close> accepts a
  request, every argument has a string projection with \<open>ok = true\<close> and the output is
  the command part followed by one bulk string per argument whose payload is that
  projection; when it rejects the request, some argument projects to \<open>("", false)\<close>.
  A value is rejected by \<open>AppendRequest\<close> exactly when its projection is
  \<open>("", false)\<close>. Go strings are shorter than \<open>2^63\<close> bytes.
\<close>

theorem ArgToString_payload:
  assumes "\<forall>a \<in> set (Args rq). length (fst (ArgToString sc a)) < 2 ^ 63"
  shows "(case AppendRequest sc buf rq of
            Inr out \<Rightarrow>
              (\<forall>a \<in> set (Args rq). snd (ArgToString sc a)) \<and>
              out = appendCmd buf rq @ concat (map (\<lambda>a. bulk (fst (ArgToString sc a))) (Args rq))
          | Inl e \<Rightarrow> (\<exists>a \<in> set (Args rq). ArgToString sc a = ([], False)))
       \<and> (\<forall>a. isl (AppendRequest sc buf \<lparr>Cmd = Cmd rq, Args = [a]\<rparr>)
                = (ArgToString sc a = ([], False)))"
proof
  show "case AppendRequest sc buf rq of
            Inr out \<Rightarrow>
              (\<forall>a \<in> set (Args rq). snd (ArgToString sc a)) \<and>
              out = appendCmd buf rq @ concat (map (\<lambda>a. bulk (fst (ArgToString sc a))) (Args rq))
          | Inl e \<Rightarrow> (\<exists>a \<in> set (Args rq). ArgToString sc a = ([], False))"
  proof (cases "\<forall>a \<in> set (Args rq). snd (ArgToString sc a)")
    case True
    then show ?thesis
      using appendArgs_supported [OF assms True] by (simp add: AppendRequest_def)
  next
    case False
    then have ex: "\<exists>a \<in> set (Args rq). \<not> snd (ArgToString sc a)" by simp
    then have "isl (appendArgs sc rq (appendCmd buf rq) (Args rq))"
      by (rule appendArgs_unsupported)
    moreover have "\<exists>a \<in> set (Args rq). ArgToString sc a = ([], False)"
      using ex ArgToString_unsupported by blast
    ultimately show ?thesis
      by (auto simp: AppendRequest_def split: sum.splits)
  qed
next
  show "\<forall>a. isl (AppendRequest sc buf \<lparr>Cmd = Cmd rq, Args = [a]\<rparr>)
              = (ArgToString sc a = ([], False))"
  proof
    fix a
    have "isl (AppendRequest sc buf \<lparr>Cmd = Cmd rq, Args = [a]\<rparr>)
          = (appendArg sc (appendCmd buf \<lparr>Cmd = Cmd rq, Args = [a]\<rparr>) a = None)"
      by (simp add: AppendRequest_def split: option.splits)
    also have "\<dots> = (\<not> snd (ArgToString sc a))" by (rule appendArg_None)
    also have "\<dots> = (ArgToString sc a = ([], False))"
      using ArgToString_unsupported [of sc a] by (cases "ArgToString sc a") auto
    finally show "isl (AppendRequest sc buf \<lparr>Cmd = Cmd rq, Args = [a]\<rparr>)
              = (ArgToString sc a = ([], False))" .
  qed
qed

theorem ArgToString_payload_witness:
  "AppendRequest strconv0 [] \<lparr>Cmd = ''SET'', Args = [AString ''k'', AInt 42, AInt64 (- 7), AUint8 0, ABool True, ANil]\<rparr>
     = Inr (array_head 7 @ bulk ''SET'' @ bulk ''k'' @ bulk ''42'' @ bulk ''-7'' @ bulk [] @ bulk ''1'' @ bulk []) \<and>
   map (ArgToString strconv0) [AString ''k'', AInt 42, AInt64 (- 7), AUint8 0, ABool True, ANil]
     = [(''k'', True), (''42'', True), (''-7'', True), ([], True), (''1'', True), ([], True)]"
proof -
  let ?args = "[AString ''k'', AInt 42, AInt64 (- 7), AUint8 0, ABool True, ANil]"
  let ?rq = "\<lparr>Cmd = ''SET'', Args = ?args\<rparr>"
  have ats: "map (ArgToString strconv0) ?args
     = [(''k'', True), (''42'', True), (''-7'', True), ([], True), (''1'', True), ([], True)]"
    by code_simp
  have h: "\<forall>a \<in> set (Args ?rq). length (fst (ArgToString strconv0 a)) < 2 ^ 63"
    using ats by simp
  have cmd: "appendCmd [] ?rq = array_head 7 @ bulk ''SET''" by code_simp
  have ok: "\<not> isl (AppendRequest strconv0 [] ?rq)" by code_simp
  show ?thesis
    using ArgToString_payload [OF h, of "[]"] ats cmd ok
    by (auto split: sum.splits)
qed

section \<open>Claims about dial and setErr\<close>

lemma setErr_done: "erronce_done (fst (setErr e one))"
  by (simp add: setErr_def Let_def)

lemma setErr_calls_done:
  "erronce_done one \<Longrightarrow> setErr_calls setErr es one = (one, [])"
  by (induction es) (simp_all add: setErr_def)

text \<open>The version of \<open>setErr\<close> in request_writer.go starts at most one reconnect task.\<close>

lemma setErr_at_most_once: "length (snd (setErr_calls setErr es one)) \<le> 1"
proof (cases es)
  case Nil
  then show ?thesis by simp
next
  case (Cons e es')
  obtain one1 ts1 where s: "setErr e one = (one1, ts1)" by (cases "setErr e one")
  then have d: "erronce_done one1" using setErr_done [of e one] by simp
  have "length ts1 \<le> 1" using s by (auto simp: setErr_def Let_def split: if_splits)
  then show ?thesis using Cons s setErr_calls_done [OF d] by simp
qed

text \<open>
  C8. The reconnect task is started at most once per session, however often \<open>setErr\<close> is
  called. In redisconn/conn.go the \<open>go conn.reconnect\<close> stands after \<open>erronce.Do\<close>, not
  inside it: a failing writer and a failing reader start two reconnect tasks on the same
  session. The version in request_writer.go starts one.
\<close>

theorem setErr_conn_spawns_twice:
  "snd (setErr_calls setErr_conn [NetErr ''write: broken pipe'', NetErr ''read: EOF''] new_oneconn)
     = [Reconnect (NetErr ''write: broken pipe''), Reconnect (NetErr ''read: EOF'')]
   \<and> length (snd (setErr_calls setErr [NetErr ''write: broken pipe'', NetErr ''read: EOF''] new_oneconn)) = 1"
  by code_simp

lemma dial_address_short_panics:
  assumes "address \<noteq> []" "hd address \<noteq> CHR ''.''" "hd address \<noteq> CHR ''/''" "length address < 7"
  shows "dial_address address = Inl SliceBoundsOutOfRange"
  using assms by (cases address) (simp_all add: dial_address_def str_index_def str_slice_def)

lemma dial_address_long_ok:
  assumes "7 \<le> length address"
  shows "\<not> isl (dial_address address)"
  using assms
  by (cases address) (auto simp: dial_address_def str_index_def str_slice_def str_slice_from_def)

text \<open>
  C9. The scheme detection of \<open>dial\<close> stays within the bounds of every non-empty address.
  It does not: \<open>address[0:7]\<close> is taken without a length check, so an address of fewer
  than 7 bytes that does not begin with a dot or a slash, such as \<open>x:6379\<close>, panics with
  a slice bound out of range.
\<close>

theorem dial_short_address_panics:
  "dial_address ''x:6379'' = Inl SliceBoundsOutOfRange"
  by code_simp

section \<open>Properties of the submission path\<close>

lemma resolve_batch_Callback:
  "resolve_batch (Callback c x) commonerr bad st js log
   = log @ map (\<lambda>j. (c, Failure (case bad of
                                      Some (errpos, e) \<Rightarrow> if j \<noteq> errpos then commonerr else e
                                    | None \<Rightarrow> commonerr), st + of_nat j)) js"
  by (induction js arbitrary: log) (auto split: option.splits)

lemma first_malformed_bound:
  "first_malformed i rs = Some (k, e) \<Longrightarrow> i \<le> k \<and> k < i + length rs \<and> CheckArgs (rs ! (k - i)) = Some e"
proof (induction rs arbitrary: i)
  case Nil
  then show ?case by simp
next
  case (Cons r rs)
  show ?case
  proof (cases "CheckArgs r")
    case None
    then have "first_malformed (Suc i) rs = Some (k, e)" using Cons.prems by simp
    from Cons.IH [OF this] show ?thesis by (auto simp: nth_Cons')
  next
    case (Some e')
    then show ?thesis using Cons.prems by simp
  qed
qed

lemma first_malformed_None:
  "first_malformed i rs = None \<longleftrightarrow> (\<forall>r \<in> set rs. CheckArgs r = None)"
  by (induction rs arbitrary: i) (auto split: option.splits)

lemma CheckArgs_loop_code:
  "CheckArgs_loop r vals = Some e \<Longrightarrow> err_code e = Some ErrArgumentType \<and> err_kind e = Some ErrKindRequest"
  by (induction r vals rule: CheckArgs_loop.induct) (auto simp: NewErr_def)

lemma CheckArgs_code:
  "CheckArgs r = Some e \<Longrightarrow> err_code e = Some ErrArgumentType \<and> err_kind e = Some ErrKindRequest"
  unfolding CheckArgs_def by (rule CheckArgs_loop_code)

lemma err_code_With [simp]: "err_code (With k v e) = err_code e"
  by (cases e) simp_all

lemma err_kind_With [simp]: "err_kind (With k v e) = err_kind e"
  by (cases e) simp_all

lemma err_cause_With [simp]: "err_cause (With k v e) = err_cause e"
  by (cases e) simp_all

lemma batch_commonerr_wraps:
  "err_code (batch_commonerr requests i e) = Some ErrBatchFormat
   \<and> err_cause (batch_commonerr requests i e) = Some (batch_err requests i e)"
  by (simp add: batch_commonerr_def conn_err_def NewErr_def)

lemma SendBatchFlags_malformed:
  assumes "first_malformed 0 requests = Some (i, e)"
  shows "SendBatchFlags now requests (Callback c x) st flags conn
         = Some (conn\<lparr>resolved := resolved conn
                    @ map (\<lambda>j. (c, Failure (if j \<noteq> i then batch_commonerr requests i e
                                               else batch_err requests i e), st + of_nat j))
                          [0 ..< length requests]
                    @ (if (flags AND DoTransaction) \<noteq> 0
                       then [(c, Failure (batch_commonerr requests i e), st + of_nat (length requests))]
                       else [])\<rparr>)"
  using assms
  by (simp add: SendBatchFlags_def Let_def resolve_batch_Callback batch_err_def batch_commonerr_def)

lemma word64_of_nat_neq:
  assumes "j < n" "n < 2 ^ 64"
  shows "(of_nat j :: 64 word) \<noteq> of_nat n"
  using assms by (simp add: word_of_nat_eq_iff take_bit_nat_eq_self)

lemma resolve_batch_transaction_skips:
  assumes "\<forall>j \<in> set js. st + of_nat j \<noteq> (of_int l :: 64 word)"
  shows "resolve_batch (transactionFuture f l off) commonerr bad st js log = log"
  using assms by (induction js arbitrary: log) (auto split: option.splits)

lemma Send_closed:
  assumes "state conn = connClosed" "CheckArgs r = None"
  shows "Send now r (Callback c False) n conn
         = Some (conn\<lparr>shardid := shardid conn + 1,
                      resolved := resolved conn @ [(c, Failure ContextClosed_error, n)]\<rparr>)"
  using assms
  by (simp add: Send_def SendAsk_def doSend_def getShard_def Let_def NewErrWrap_def
        ContextClosed_error_def)

lemma doSendBatch_closed:
  assumes "state conn = connClosed" "requests \<noteq> []" "\<not> Cancelled cb"
  shows "doSendBatch now requests cb st flags conn
         = Some (Some ContextClosed_error, conn\<lparr>shardid := shardid conn + 1\<rparr>)"
  using assms
  by (simp add: doSendBatch_def getShard_def Let_def conn_err_def NewErr_def ContextClosed_error_def)

lemma SendBatch_closed:
  assumes "state conn = connClosed" "\<forall>q \<in> set requests. CheckArgs q = None" "requests \<noteq> []"
  shows "SendBatch now requests (Callback c False) st conn
         = Some (conn\<lparr>shardid := shardid conn + 1,
                      resolved := resolved conn
                        @ map (\<lambda>j. (c, Failure ContextClosed_error, st + of_nat j))
                              [0 ..< length requests]\<rparr>)"
proof -
  have fm: "first_malformed 0 requests = None" using assms(2) by (simp add: first_malformed_None)
  show ?thesis
    using doSendBatch_closed [OF assms(1,3), of "Callback c False" now st 0]
    by (simp add: SendBatch_def SendBatchFlags_def fm Let_def resolve_batch_Callback)
qed

lemma SendTransaction_closed:
  assumes "state conn = connClosed" "\<forall>q \<in> set requests. CheckArgs q = None" "requests \<noteq> []"
    and "length requests < 2 ^ 63"
  shows "SendTransaction now requests (Callback c False) off conn
         = Some (conn\<lparr>shardid := shardid conn + 1,
                      resolved := resolved conn @ [(c, Failure ContextClosed_error, off)]\<rparr>)"
proof -
  let ?tf = "transactionFuture (Callback c False) (int (length requests)) off"
  have fm: "first_malformed 0 requests = None" using assms(2) by (simp add: first_malformed_None)
  have n64: "length requests < 2 ^ 64" using assms(4) by simp
  have skip: "\<forall>j \<in> set [0 ..< length requests]. 0 + of_nat j \<noteq> (of_int (int (length requests)) :: 64 word)"
    using word64_of_nat_neq [OF _ n64] by simp
  have d: "doSendBatch now requests ?tf 0 DoTransaction conn
           = Some (Some ContextClosed_error, conn\<lparr>shardid := shardid conn + 1\<rparr>)"
    using assms(1,3) by (intro doSendBatch_closed) simp_all
  have dt: "DoTransaction \<noteq> 0" by (simp add: DoTransaction_def)
  show ?thesis
    by (simp add: SendTransaction_def SendBatchFlags_def fm Let_def d dt
          resolve_batch_transaction_skips [OF skip])
qed

lemma CheckArgs_loop_appendArgs:
  "CheckArgs_loop r vals = None \<Longrightarrow> \<exists>out. appendArgs sc r' b vals = Inr out"
proof (induction r vals arbitrary: b rule: CheckArgs_loop.induct)
  case (1 r)
  then show ?case by simp
next
  case (2 r ty vals)
  then show ?case by simp
qed (auto simp: Let_def)

lemma CheckArgs_AppendRequest:
  "CheckArgs r = None \<Longrightarrow> \<exists>out. AppendRequest sc b r = Inr out"
  unfolding CheckArgs_def AppendRequest_def by (rule CheckArgs_loop_appendArgs)

lemma writer_pack_keeps:
  assumes "\<forall>f \<in> set futs. CheckArgs (req f) = None"
  shows "\<exists>packet'. writer_pack sc futs (packet, kept, log) = (packet', kept @ futs, log)"
  using assms
proof (induction futs arbitrary: packet kept)
  case Nil
  then show ?case by simp
next
  case (Cons f futs)
  then obtain out where "AppendRequest sc packet (req f) = Inr out"
    using CheckArgs_AppendRequest [of "req f" sc packet] by auto
  then show ?case using Cons.IH [of out "kept @ [f]"] Cons.prems by simp
qed

lemma reader_resolve_append:
  "length xs = length as \<Longrightarrow>
   reader_resolve (xs @ ys) (as @ bs) log = reader_resolve ys bs (reader_resolve xs as log)"
  by (induction xs as arbitrary: log rule: list_induct2) simp_all

lemma req_batch_entries: "map req (batch_entries cb st now i rs) = rs"
  by (induction rs arbitrary: i) simp_all

lemma length_batch_entries: "length (batch_entries cb st now i rs) = length rs"
  by (induction rs arbitrary: i) simp_all

lemma reader_resolve_batch_entries_skips:
  assumes "i + length rs \<le> n" "n < 2 ^ 64"
  shows "reader_resolve (batch_entries (transactionFuture f (int n) off) 0 now i rs) ress log = log"
  using assms
proof (induction rs arbitrary: i ress)
  case Nil
  then show ?case by simp
next
  case (Cons r rs)
  show ?case
  proof (cases ress)
    case Nil
    then show ?thesis by simp
  next
    case (Cons res ress')
    have "i < n" using Cons.prems by simp
    then have "(of_nat i :: 64 word) \<noteq> of_nat n" using Cons.prems(2) by (rule word64_of_nat_neq)
    moreover have "Suc i + length rs \<le> n" using Cons.prems by simp
    ultimately show ?thesis using Cons.IH [of "Suc i" ress'] Cons.prems(2) Cons
      by (simp add: call_def)
  qed
qed

lemma getShard_in_range:
  assumes "conn_ok conn"
  shows "fst (getShard conn) < length (shard conn)"
proof -
  have nz: "Concurrency conn \<noteq> 0" and len: "length (shard conn) = unat (Concurrency conn)"
    using assms by (simp_all add: conn_ok_def)
  have "(shardid conn + 1) mod Concurrency conn < Concurrency conn"
    using nz by (simp add: word_mod_less_divisor word_greater_zero_iff)
  then show ?thesis by (simp add: getShard_def Let_def len word_less_nat_alt)
qed

lemma notify_and_store_shard:
  "notify_and_store k futures conn = Some conn' \<Longrightarrow>
   shard conn' = (shard conn)[k := futures] \<and> resolved conn' = resolved conn \<and> state conn' = state conn"
  by (auto simp: notify_and_store_def send_dirtyShard_def split: if_splits option.splits)

lemma SendTransaction_entries:
  assumes ok: "conn_ok conn"
    and live: "state conn = connConnecting \<or> state conn = connConnected"
    and wf: "\<forall>q \<in> set reqs. CheckArgs q = None" and ne: "reqs \<noteq> []"
    and sent: "SendTransaction now reqs (Callback c False) off conn = Some conn'"
  shows "\<exists>k. k < length (shard conn) \<and> resolved conn' = resolved conn \<and>
           shard conn' = (shard conn)[k := shard conn ! k @
              (\<lparr>Future = dumb, N = 0, start = 0, req = \<lparr>Cmd = ''MULTI'', Args = []\<rparr>\<rparr>
               # batch_entries (transactionFuture (Callback c False) (int (length reqs)) off) 0 now 0 reqs
               @ [\<lparr>Future = transactionFuture (Callback c False) (int (length reqs)) off,
                    N = of_nat (length reqs), start = now,
                    req = \<lparr>Cmd = ''EXEC'', Args = []\<rparr>\<rparr>])]"
proof -
  let ?tf = "transactionFuture (Callback c False) (int (length reqs)) off"
  let ?k = "fst (getShard conn)"
  let ?c1 = "snd (getShard conn)"
  have fm: "first_malformed 0 reqs = None" using wf by (simp add: first_malformed_None)
  have dt: "DoTransaction \<noteq> 0" "(DoTransaction AND DoAsking) = 0"
    by (simp_all add: DoTransaction_def DoAsking_def)
  have k: "?k < length (shard conn)" using ok by (rule getShard_in_range)
  have c1: "state ?c1 = state conn" "shard ?c1 = shard conn" "resolved ?c1 = resolved conn"
    by (simp_all add: getShard_def Let_def)
  let ?futs = "shard conn ! ?k @
              (\<lparr>Future = dumb, N = 0, start = 0, req = \<lparr>Cmd = ''MULTI'', Args = []\<rparr>\<rparr>
               # batch_entries ?tf 0 now 0 reqs
               @ [\<lparr>Future = ?tf, N = of_nat (length reqs), start = now,
                    req = \<lparr>Cmd = ''EXEC'', Args = []\<rparr>\<rparr>])"
  have d: "doSendBatch now reqs ?tf 0 DoTransaction conn
           = map_option (Pair None) (notify_and_store ?k ?futs ?c1)"
    using ne live c1 dt
    by (auto simp: doSendBatch_def Let_def case_prod_beta and.commute)
  from sent have "SendBatchFlags now reqs ?tf 0 DoTransaction conn = Some conn'"
    by (simp add: SendTransaction_def)
  then have "notify_and_store ?k ?futs ?c1 = Some conn'"
    by (auto simp: SendBatchFlags_def fm Let_def d split: option.splits)
  from notify_and_store_shard [OF this] c1 k show ?thesis by auto
qed

lemma batch_loop_conn_ok:
  assumes "\<forall>q \<in> set rs. CheckArgs q = None"
  shows "\<exists>buf'. batch_loop_conn sc cb st i rs buf futs
           = Inr (buf', futs @ map (\<lambda>j. (cb, st + of_nat j)) [i ..< i + length rs])"
  using assms
proof (induction rs arbitrary: i buf futs)
  case Nil
  then show ?case by simp
next
  case (Cons r rs)
  then obtain out where o: "AppendRequest sc buf r = Inr out"
    using CheckArgs_AppendRequest [of r sc buf] by auto
  obtain buf' where "batch_loop_conn sc cb st (Suc i) rs out (futs @ [(cb, st + of_nat i)])
           = Inr (buf', (futs @ [(cb, st + of_nat i)]) @ map (\<lambda>j. (cb, st + of_nat j)) [Suc i ..< Suc i + length rs])"
    using Cons.IH [of "Suc i" out "futs @ [(cb, st + of_nat i)]"] Cons.prems by auto
  moreover have "[i ..< i + length (r # rs)] = i # [Suc i ..< Suc i + length rs]"
    by (simp del: upt_Suc add: upt_conv_Cons)
  ultimately show ?case using o by (simp del: upt_Suc)
qed

lemma reader_resolve_conn_append:
  "length xs = length as \<Longrightarrow>
   reader_resolve_conn (xs @ ys) (as @ bs) log
   = reader_resolve_conn ys bs (reader_resolve_conn xs as log)"
  by (induction xs as arbitrary: log rule: list_induct2) simp_all

lemma reader_resolve_conn_skips:
  assumes "\<forall>j \<in> set js. j < n" "n < 2 ^ 64"
  shows "reader_resolve_conn (map (\<lambda>j. (transactionFuture f (int n) off, 0 + of_nat j)) js) ress log = log"
  using assms
proof (induction js arbitrary: ress)
  case Nil
  then show ?case by simp
next
  case (Cons j js)
  show ?case
  proof (cases ress)
    case Nil
    then show ?thesis by simp
  next
    case (Cons res ress')
    have "j < n" using Cons.prems by simp
    then have "(of_nat j :: 64 word) \<noteq> of_nat n" using Cons.prems(2) by (rule word64_of_nat_neq)
    then show ?thesis using Cons.IH [of ress'] Cons.prems Cons
      by (simp add: call_conn_def)
  qed
qed

lemma getShard_conn_in_range:
  assumes "conn_ok_c conn"
  shows "fst (getShard_conn conn) < length (shard_c conn)"
proof -
  have nz: "Concurrency_c conn \<noteq> 0" and len: "length (shard_c conn) = unat (Concurrency_c conn)"
    using assms by (simp_all add: conn_ok_c_def)
  have "(shardid_c conn + 1) mod Concurrency_c conn < Concurrency_c conn"
    using nz by (simp add: word_mod_less_divisor word_greater_zero_iff)
  then show ?thesis by (simp add: getShard_conn_def Let_def len word_less_nat_alt)
qed

lemma notify_and_store_conn_shard:
  "notify_and_store_conn k buf futures conn = Some conn' \<Longrightarrow>
   shard_c conn' = (shard_c conn)[k := \<lparr>buf_c = buf, futures_c = futures\<rparr>]
   \<and> resolved_c conn' = resolved_c conn"
  by (auto simp: notify_and_store_conn_def send_dirtyShard_conn_def Let_def split: if_splits)

lemma SendTransaction_conn_entries:
  assumes ok: "conn_ok_c conn"
    and live: "state_c conn = connConnecting \<or> state_c conn = connConnected"
    and wf: "\<forall>q \<in> set reqs. CheckArgs q = None" and ne: "reqs \<noteq> []"
    and sent: "SendTransaction_conn sc reqs (Callback c False) off conn = Some conn'"
  shows "\<exists>k. k < length (shard_c conn) \<and> resolved_c conn' = resolved_c conn \<and>
           futures_c (shard_c conn' ! k) = futures_c (shard_c conn ! k) @
              ((dumb, 0)
               # map (\<lambda>j. (transactionFuture (Callback c False) (int (length reqs)) off, 0 + of_nat j))
                     [0 ..< length reqs]
               @ [(transactionFuture (Callback c False) (int (length reqs)) off,
                   0 + of_nat (length reqs))])"
proof -
  let ?tf = "transactionFuture (Callback c False) (int (length reqs)) off"
  let ?k = "fst (getShard_conn conn)"
  let ?c1 = "snd (getShard_conn conn)"
  have dt: "DoTransaction \<noteq> 0" "(DoTransaction AND DoAsking) = 0"
    by (simp_all add: DoTransaction_def DoAsking_def)
  have k: "?k < length (shard_c conn)" using ok by (rule getShard_conn_in_range)
  have c1: "state_c ?c1 = state_c conn" "shard_c ?c1 = shard_c conn" "resolved_c ?c1 = resolved_c conn"
    by (simp_all add: getShard_conn_def Let_def)
  let ?buf0 = "buf_c (shard_c conn ! ?k) @ multiReq"
  let ?futs0 = "futures_c (shard_c conn ! ?k) @ [(dumb, 0)]"
  obtain buf' where bl: "batch_loop_conn sc ?tf 0 0 reqs ?buf0 ?futs0
      = Inr (buf', ?futs0 @ map (\<lambda>j. (?tf, 0 + of_nat j)) [0 ..< 0 + length reqs])"
    using batch_loop_conn_ok [OF wf, of sc ?tf 0 0 ?buf0 ?futs0] by auto
  let ?futs = "?futs0 @ map (\<lambda>j. (?tf, 0 + of_nat j)) [0 ..< length reqs] @ [(?tf, 0 + of_nat (length reqs))]"
  from sent have "SendBatchFlags_conn sc reqs ?tf 0 DoTransaction conn = Some conn'"
    by (simp add: SendTransaction_conn_def Active_def)
  then have "notify_and_store_conn ?k (buf' @ execReq) ?futs ?c1 = Some conn'"
    using ne live c1 dt bl
    by (auto simp: SendBatchFlags_conn_def Let_def case_prod_beta Active_def and.commute)
  from notify_and_store_conn_shard [OF this] c1 k show ?thesis by auto
qed

text \<open>
  In redisconn/conn.go a batch submitted to a closed connection returns from inside the
  switch on the state: no index of the batch is resolved.
\<close>

lemma SendBatchFlags_conn_closed_unresolved:
  assumes "state_c conn = connClosed" "requests \<noteq> []" "Active cb"
  shows "SendBatchFlags_conn sc requests cb st flags conn
         = Some (conn\<lparr>shardid_c := shardid_c conn + 1\<rparr>)"
  using assms by (simp add: SendBatchFlags_conn_def getShard_conn_def Let_def)

section \<open>Claims about the submission path\<close>

text \<open>
  C2. A batch with a malformed request is not sent, and every index of the batch is
  resolved once: the offending one with the \<open>ArgumentType\<close> error, the others, the
  index of EXEC included when the transaction flag is set, with a \<open>BatchFormat\<close>
  error wrapping it. \<open>SendBatchFlags\<close> of request_writer.go does so (lemma
  \<open>SendBatchFlags_malformed\<close>). \<open>SendBatchFlags\<close> of redisconn/conn.go resolves the
  indices of the requests only, never the index of EXEC; through \<open>SendTransaction\<close>,
  which passes on the index of EXEC alone, the caller's future is then never resolved.
\<close>

theorem SendBatchFlags_conn_leaves_EXEC_unresolved:
  "map_option (\<lambda>conn. indices (resolved_c conn))
     (SendBatchFlags_conn strconv0 [GET_a, GET_struct] (Callback 1 False) 10 DoTransaction
        (example_conn_c connConnected)) = Some [10, 11]
   \<and> map_option resolved_c
     (SendTransaction_conn strconv0 [GET_a, GET_struct] (Callback 1 False) 7
        (example_conn_c connConnected)) = Some []
   \<and> map_option (\<lambda>conn. indices (resolved conn))
     (SendBatchFlags 0 [GET_a, GET_struct] (Callback 1 False) 10 DoTransaction
        (example_conn connConnected)) = Some [10, 11, 12]"
  by code_simp

text \<open>
  C6. A submission to a closed connection does not block and resolves every index with
  the \<open>ContextClosed\<close> error wrapping the context's error. In request_writer.go this
  holds for well-formed requests, a future that is not cancelled and, for batches and
  transactions, at least one request: nothing is enqueued or sent on the channel, only
  the round-robin counter moves, and \<open>SendTransaction\<close> resolves the caller's future
  once at \<open>off\<close>.
\<close>

theorem closed_submission_resolves_ContextClosed:
  assumes "state conn = connClosed"
    and "CheckArgs r = None" and "\<forall>q \<in> set requests. CheckArgs q = None"
    and "requests \<noteq> []" and "length requests < 2 ^ 63"
  shows "Send now r (Callback c False) n conn
           = Some (conn\<lparr>shardid := shardid conn + 1,
                        resolved := resolved conn @ [(c, Failure ContextClosed_error, n)]\<rparr>)
       \<and> SendBatch now requests (Callback c False) st conn
           = Some (conn\<lparr>shardid := shardid conn + 1,
                        resolved := resolved conn
                          @ map (\<lambda>j. (c, Failure ContextClosed_error, st + of_nat j))
                                [0 ..< length requests]\<rparr>)
       \<and> SendTransaction now requests (Callback c False) off conn
           = Some (conn\<lparr>shardid := shardid conn + 1,
                        resolved := resolved conn @ [(c, Failure ContextClosed_error, off)]\<rparr>)"
  using Send_closed [OF assms(1,2)] SendBatch_closed [OF assms(1,3,4)]
    SendTransaction_closed [OF assms(1,3,4,5)]
  by simp

theorem closed_submission_resolves_ContextClosed_witness:
  "Send 0 GET_a (Callback 1 False) 3 (example_conn connClosed)
     = Some ((example_conn connClosed)\<lparr>shardid := 1,
               resolved := [(1, Failure ContextClosed_error, 3)]\<rparr>)
   \<and> SendBatch 0 [GET_a, GET_a] (Callback 1 False) 10 (example_conn connClosed)
     = Some ((example_conn connClosed)\<lparr>shardid := 1,
               resolved := [(1, Failure ContextClosed_error, 10), (1, Failure ContextClosed_error, 11)]\<rparr>)
   \<and> SendTransaction 0 [GET_a, GET_a] (Callback 1 False) 7 (example_conn connClosed)
     = Some ((example_conn connClosed)\<lparr>shardid := 1,
               resolved := [(1, Failure ContextClosed_error, 7)]\<rparr>)"
proof -
  have h1: "state (example_conn connClosed) = connClosed" by (simp add: example_conn_def)
  have h2: "CheckArgs GET_a = None" by (simp add: GET_a_def CheckArgs_def)
  have h3: "\<forall>q \<in> set [GET_a, GET_a]. CheckArgs q = None" using h2 by simp
  have h4: "[GET_a, GET_a] \<noteq> []" by simp
  have h5: "length [GET_a, GET_a] < 2 ^ 63" by simp
  have u: "[0 ..< length [GET_a, GET_a]] = [0, 1]" by (simp add: upt_rec)
  show ?thesis
    using closed_submission_resolves_ContextClosed [OF h1 h2 h3 h4 h5, of 0 1 3 10 7]
    unfolding u by (simp add: example_conn_def)
qed

text \<open>
  The cancellation check and the argument check come before the check of the state, and
  an empty transaction returns before it: a cancelled future is resolved with
  \<open>RequestCancelled\<close>, a malformed request with \<open>ArgumentType\<close>, an empty transaction
  with an empty array, closed connection or not.
\<close>

theorem closed_submission_counterexample:
  "map_option (\<lambda>conn. map (\<lambda>(c, res, n). (c, case res of Failure e \<Rightarrow> err_code e | Reply v \<Rightarrow> None, n))
                        (resolved conn))
     (Send 0 GET_a (Callback 1 True) 3 (example_conn connClosed))
     = Some [(1, Some ErrRequestCancelled, 3)]
   \<and> map_option (\<lambda>conn. map (\<lambda>(c, res, n). (c, case res of Failure e \<Rightarrow> err_code e | Reply v \<Rightarrow> None, n))
                        (resolved conn))
     (Send 0 GET_struct (Callback 1 False) 3 (example_conn connClosed))
     = Some [(1, Some ErrArgumentType, 3)]
   \<and> map_option resolved (SendTransaction 0 [] (Callback 1 False) 7 (example_conn connClosed))
     = Some [(1, Reply (RArray []), 7)]"
  by code_simp

text \<open>
  C10. \<open>SendTransaction\<close> with no request resolves a future that is not cancelled
  once, with an empty array at \<open>off\<close>, and touches neither the shards, nor the channel,
  nor the round-robin counter, whatever the state of the connection. A cancelled future
  is resolved once at \<open>off\<close> with \<open>RequestCancelled\<close>.
\<close>

theorem SendTransaction_empty:
  "SendTransaction now [] (Callback c False) off conn
     = Some (conn\<lparr>resolved := resolved conn @ [(c, Reply (RArray []), off)]\<rparr>)
   \<and> SendTransaction now [] (Callback c True) off conn
     = Some (conn\<lparr>resolved := resolved conn
               @ [(c, Failure (conn_err ErrKindRequest ErrRequestCancelled), off)]\<rparr>)"
  by (simp add: SendTransaction_def SendBatchFlags_def doSendBatch_def Let_def DoTransaction_def)

text \<open>A cancelled future is resolved with \<open>RequestCancelled\<close> instead.\<close>

theorem SendTransaction_empty_cancelled_counterexample:
  "SendTransaction 0 [] (Callback 1 True) 7 (example_conn connConnected)
   = Some ((example_conn connConnected)
            \<lparr>resolved := [(1, Failure (conn_err ErrKindRequest ErrRequestCancelled), 7)]\<rparr>)
   \<and> Failure (conn_err ErrKindRequest ErrRequestCancelled) \<noteq> Reply (RArray [])"
  by code_simp

text \<open>
  C5. A transaction accepted by a live connection appends MULTI, the requests and EXEC
  to one shard and resolves nothing at submission. The writer keeps all of these
  entries, and when the reader hands them their replies in order, the reply to EXEC
  being an array \<open>vs\<close>, the caller's future is resolved exactly once, with \<open>vs\<close> at
  \<open>off\<close>: the replies to MULTI and to the requests reach no callback. This holds for
  the connection of request_writer.go and for the one of redisconn/conn.go.
\<close>

theorem SendTransaction_resolves_once:
  assumes len: "length reqs < 2 ^ 63" and ne: "reqs \<noteq> []"
    and wf: "\<forall>q \<in> set reqs. CheckArgs q = None"
    and rs: "length rs = length reqs"
    and ok: "conn_ok conn"
    and live: "state conn = connConnecting \<or> state conn = connConnected"
    and sent: "SendTransaction now reqs (Callback c False) off conn = Some conn'"
    and ok_c: "conn_ok_c conn_c"
    and live_c: "state_c conn_c = connConnecting \<or> state_c conn_c = connConnected"
    and sent_c: "SendTransaction_conn sc reqs (Callback c False) off conn_c = Some conn_c'"
  shows "(\<exists>k es. k < length (shard conn)
            \<and> shard conn' = (shard conn)[k := shard conn ! k @ es]
            \<and> map req es = \<lparr>Cmd = ''MULTI'', Args = []\<rparr> # reqs @ [\<lparr>Cmd = ''EXEC'', Args = []\<rparr>]
            \<and> resolved conn' = resolved conn
            \<and> (\<exists>packet'. writer_pack sc es (packet, kept, log) = (packet', kept @ es, log))
            \<and> reader_resolve es (m # rs @ [Reply (RArray vs)]) log
                = log @ [(c, Reply (RArray vs), off)])
       \<and> (\<exists>k es. k < length (shard_c conn_c)
            \<and> futures_c (shard_c conn_c' ! k) = futures_c (shard_c conn_c ! k) @ es
            \<and> length es = length reqs + 2
            \<and> resolved_c conn_c' = resolved_c conn_c
            \<and> reader_resolve_conn es (m # rs @ [Reply (RArray vs)]) log
                = log @ [(c, Reply (RArray vs), off)])"
proof
  let ?n = "length reqs"
  let ?tf = "transactionFuture (Callback c False) (int ?n) off"
  have n64: "?n < 2 ^ 64" using len by simp
  let ?multi = "\<lparr>Future = dumb, N = 0, start = 0, req = \<lparr>Cmd = ''MULTI'', Args = []\<rparr>\<rparr>"
  let ?exec = "\<lparr>Future = ?tf, N = of_nat ?n, start = now, req = \<lparr>Cmd = ''EXEC'', Args = []\<rparr>\<rparr>"
  let ?batch = "batch_entries ?tf 0 now 0 reqs"
  let ?es = "?multi # ?batch @ [?exec]"
  from SendTransaction_entries [OF ok live wf ne sent]
  obtain k where k: "k < length (shard conn)" and r: "resolved conn' = resolved conn"
    and s: "shard conn' = (shard conn)[k := shard conn ! k @ ?es]" by blast
  have reqs: "map req ?es = \<lparr>Cmd = ''MULTI'', Args = []\<rparr> # reqs @ [\<lparr>Cmd = ''EXEC'', Args = []\<rparr>]"
    by (simp add: req_batch_entries)
  have "\<forall>f \<in> set ?es. CheckArgs (req f) = None"
  proof
    fix f assume "f \<in> set ?es"
    then have "req f \<in> set (map req ?es)" by (rule imageI [of f "set ?es" req, simplified set_map [symmetric]])
    then have "req f = \<lparr>Cmd = ''MULTI'', Args = []\<rparr> \<or> req f \<in> set reqs \<or> req f = \<lparr>Cmd = ''EXEC'', Args = []\<rparr>"
      unfolding reqs by auto
    then show "CheckArgs (req f) = None" using wf by (auto simp: CheckArgs_def)
  qed
  then have w: "\<exists>packet'. writer_pack sc ?es (packet, kept, log) = (packet', kept @ ?es, log)"
    by (rule writer_pack_keeps)
  have skip: "reader_resolve ?batch rs log = log"
    by (rule reader_resolve_batch_entries_skips) (use n64 in simp_all)
  have "reader_resolve (?batch @ [?exec]) (rs @ [Reply (RArray vs)]) log
        = reader_resolve [?exec] [Reply (RArray vs)] (reader_resolve ?batch rs log)"
    by (rule reader_resolve_append) (simp add: length_batch_entries rs)
  then have "reader_resolve ?es (m # rs @ [Reply (RArray vs)]) log = log @ [(c, Reply (RArray vs), off)]"
    by (simp add: skip call_def)
  then have rr: "reader_resolve ?es (m # rs @ [Reply (RArray vs)]) log = log @ [(c, Reply (RArray vs), off)]" .
  show "\<exists>k es. k < length (shard conn)
            \<and> shard conn' = (shard conn)[k := shard conn ! k @ es]
            \<and> map req es = \<lparr>Cmd = ''MULTI'', Args = []\<rparr> # reqs @ [\<lparr>Cmd = ''EXEC'', Args = []\<rparr>]
            \<and> resolved conn' = resolved conn
            \<and> (\<exists>packet'. writer_pack sc es (packet, kept, log) = (packet', kept @ es, log))
            \<and> reader_resolve es (m # rs @ [Reply (RArray vs)]) log
                = log @ [(c, Reply (RArray vs), off)]"
    apply (rule exI [of _ k])
    apply (rule exI [of _ "?es"])
    apply (intro conjI)
         apply (rule k)
        apply (rule s)
       apply (rule reqs)
      apply (rule r)
     apply (rule w)
    apply (rule rr)
    done
next
  let ?n = "length reqs"
  let ?tf = "transactionFuture (Callback c False) (int ?n) off"
  have n64: "?n < 2 ^ 64" using len by simp
  let ?mid = "map (\<lambda>j. (?tf, 0 + of_nat j)) [0 ..< ?n]"
  let ?es = "(dumb, 0) # ?mid @ [(?tf, 0 + of_nat ?n)]"
  from SendTransaction_conn_entries [OF ok_c live_c wf ne sent_c]
  obtain k where k: "k < length (shard_c conn_c)" and r: "resolved_c conn_c' = resolved_c conn_c"
    and s: "futures_c (shard_c conn_c' ! k) = futures_c (shard_c conn_c ! k) @ ?es" by blast
  have "reader_resolve_conn ?mid rs log = log"
    by (rule reader_resolve_conn_skips) (use n64 in simp_all)
  then have skip: "reader_resolve_conn (map (\<lambda>j. (?tf, of_nat j)) [0 ..< ?n]) rs log = log"
    by simp
  have "reader_resolve_conn (?mid @ [(?tf, 0 + of_nat ?n)]) (rs @ [Reply (RArray vs)]) log
        = reader_resolve_conn [(?tf, 0 + of_nat ?n)] [Reply (RArray vs)] (reader_resolve_conn ?mid rs log)"
    by (rule reader_resolve_conn_append) (simp add: rs)
  then have "reader_resolve_conn ?es (m # rs @ [Reply (RArray vs)]) log = log @ [(c, Reply (RArray vs), off)]"
    by (simp add: skip call_conn_def)
  then have rr: "reader_resolve_conn ?es (m # rs @ [Reply (RArray vs)]) log = log @ [(c, Reply (RArray vs), off)]" .
  have le: "length ?es = length reqs + 2" by simp
  show "\<exists>k es. k < length (shard_c conn_c)
            \<and> futures_c (shard_c conn_c' ! k) = futures_c (shard_c conn_c ! k) @ es
            \<and> length es = length reqs + 2
            \<and> resolved_c conn_c' = resolved_c conn_c
            \<and> reader_resolve_conn es (m # rs @ [Reply (RArray vs)]) log
                = log @ [(c, Reply (RArray vs), off)]"
    apply (rule exI [of _ k])
    apply (rule exI [of _ "?es"])
    apply (intro conjI)
        apply (rule k)
       apply (rule s)
      apply (rule le)
     apply (rule r)
    apply (rule rr)
    done
qed

theorem SendTransaction_resolves_once_witness:
  "\<exists>conn' conn_c'.
     SendTransaction 0 [GET_a, GET_a] (Callback 1 False) 7 (example_conn connConnected) = Some conn'
   \<and> SendTransaction_conn strconv0 [GET_a, GET_a] (Callback 1 False) 7 (example_conn_c connConnected)
       = Some conn_c'
   \<and> (\<exists>k es. shard conn' = (shard (example_conn connConnected))[k := shard (example_conn connConnected) ! k @ es]
         \<and> map req es = [\<lparr>Cmd = ''MULTI'', Args = []\<rparr>, GET_a, GET_a, \<lparr>Cmd = ''EXEC'', Args = []\<rparr>]
         \<and> reader_resolve es
              [Reply (RString ''OK''), Reply (RString ''QUEUED''), Reply (RString ''QUEUED''),
               Reply (RArray [RBulk ''1'', RBulk ''2''])] []
            = [(1, Reply (RArray [RBulk ''1'', RBulk ''2'']), 7)])
   \<and> (\<exists>k es. futures_c (shard_c conn_c' ! k)
                = futures_c (shard_c (example_conn_c connConnected) ! k) @ es
         \<and> reader_resolve_conn es
              [Reply (RString ''OK''), Reply (RString ''QUEUED''), Reply (RString ''QUEUED''),
               Reply (RArray [RBulk ''1'', RBulk ''2''])] []
            = [(1, Reply (RArray [RBulk ''1'', RBulk ''2'']), 7)])"
proof -
  let ?reqs = "[GET_a, GET_a]"
  let ?rs = "[Reply (RString ''QUEUED''), Reply (RString ''QUEUED'')]"
  have "SendTransaction 0 ?reqs (Callback 1 False) 7 (example_conn connConnected) \<noteq> None"
    by code_simp
  then obtain conn' where
    sent: "SendTransaction 0 ?reqs (Callback 1 False) 7 (example_conn connConnected) = Some conn'"
    by blast
  have "SendTransaction_conn strconv0 ?reqs (Callback 1 False) 7 (example_conn_c connConnected) \<noteq> None"
    by code_simp
  then obtain conn_c' where
    sent_c: "SendTransaction_conn strconv0 ?reqs (Callback 1 False) 7 (example_conn_c connConnected)
             = Some conn_c'"
    by blast
  have len: "length ?reqs < 2 ^ 63" by simp
  have ne: "?reqs \<noteq> []" by simp
  have wf: "\<forall>q \<in> set ?reqs. CheckArgs q = None" by (simp add: GET_a_def CheckArgs_def)
  have rs: "length ?rs = length ?reqs" by simp
  have ok: "conn_ok (example_conn connConnected)" by (simp add: conn_ok_def example_conn_def)
  have live: "state (example_conn connConnected) = connConnecting
              \<or> state (example_conn connConnected) = connConnected"
    by (simp add: example_conn_def)
  have ok_c: "conn_ok_c (example_conn_c connConnected)"
    by (simp add: conn_ok_c_def example_conn_c_def)
  have live_c: "state_c (example_conn_c connConnected) = connConnecting
              \<or> state_c (example_conn_c connConnected) = connConnected"
    by (simp add: example_conn_c_def)
  let ?m = "Reply (RString ''OK'')"
  let ?v = "Reply (RArray [RBulk ''1'', RBulk ''2''])"
  let ?ec = "example_conn connConnected"
  let ?ecc = "example_conn_c connConnected"
  note T = SendTransaction_resolves_once [OF len ne wf rs ok live sent ok_c live_c sent_c,
      of "[]" "[]" "[]" ?m "[RBulk ''1'', RBulk ''2'']"]
  from T have T1: "\<exists>k es. k < length (shard ?ec)
            \<and> shard conn' = (shard ?ec)[k := shard ?ec ! k @ es]
            \<and> map req es = \<lparr>Cmd = ''MULTI'', Args = []\<rparr> # ?reqs @ [\<lparr>Cmd = ''EXEC'', Args = []\<rparr>]
            \<and> resolved conn' = resolved ?ec
            \<and> (\<exists>packet'. writer_pack strconv0 es ([], [], []) = (packet', [] @ es, []))
            \<and> reader_resolve es (?m # ?rs @ [?v]) [] = [] @ [(1, ?v, 7)]"
    by (rule conjunct1)
  from T have T2: "\<exists>k es. k < length (shard_c ?ecc)
            \<and> futures_c (shard_c conn_c' ! k) = futures_c (shard_c ?ecc ! k) @ es
            \<and> length es = length ?reqs + 2
            \<and> resolved_c conn_c' = resolved_c ?ecc
            \<and> reader_resolve_conn es (?m # ?rs @ [?v]) [] = [] @ [(1, ?v, 7)]"
    by (rule conjunct2)
  from T1 obtain k where "\<exists>es. k < length (shard ?ec)
            \<and> shard conn' = (shard ?ec)[k := shard ?ec ! k @ es]
            \<and> map req es = \<lparr>Cmd = ''MULTI'', Args = []\<rparr> # ?reqs @ [\<lparr>Cmd = ''EXEC'', Args = []\<rparr>]
            \<and> resolved conn' = resolved ?ec
            \<and> (\<exists>packet'. writer_pack strconv0 es ([], [], []) = (packet', [] @ es, []))
            \<and> reader_resolve es (?m # ?rs @ [?v]) [] = [] @ [(1, ?v, 7)]" ..
  then obtain es where X: "k < length (shard ?ec)
            \<and> shard conn' = (shard ?ec)[k := shard ?ec ! k @ es]
            \<and> map req es = \<lparr>Cmd = ''MULTI'', Args = []\<rparr> # ?reqs @ [\<lparr>Cmd = ''EXEC'', Args = []\<rparr>]
            \<and> resolved conn' = resolved ?ec
            \<and> (\<exists>packet'. writer_pack strconv0 es ([], [], []) = (packet', [] @ es, []))
            \<and> reader_resolve es (?m # ?rs @ [?v]) [] = [] @ [(1, ?v, 7)]" ..
  from T2 obtain k' where "\<exists>es. k' < length (shard_c ?ecc)
            \<and> futures_c (shard_c conn_c' ! k') = futures_c (shard_c ?ecc ! k') @ es
            \<and> length es = length ?reqs + 2
            \<and> resolved_c conn_c' = resolved_c ?ecc
            \<and> reader_resolve_conn es (?m # ?rs @ [?v]) [] = [] @ [(1, ?v, 7)]" ..
  then obtain es' where X': "k' < length (shard_c ?ecc)
            \<and> futures_c (shard_c conn_c' ! k') = futures_c (shard_c ?ecc ! k') @ es'
            \<and> length es' = length ?reqs + 2
            \<and> resolved_c conn_c' = resolved_c ?ecc
            \<and> reader_resolve_conn es' (?m # ?rs @ [?v]) [] = [] @ [(1, ?v, 7)]" ..
  have a: "shard conn' = (shard ?ec)[k := shard ?ec ! k @ es]"
    and b: "map req es = \<lparr>Cmd = ''MULTI'', Args = []\<rparr> # ?reqs @ [\<lparr>Cmd = ''EXEC'', Args = []\<rparr>]"
    and c: "reader_resolve es (?m # ?rs @ [?v]) [] = [] @ [(1, ?v, 7)]"
    using X by simp_all
  have a': "futures_c (shard_c conn_c' ! k') = futures_c (shard_c ?ecc ! k') @ es'"
    and c': "reader_resolve_conn es' (?m # ?rs @ [?v]) [] = [] @ [(1, ?v, 7)]"
    using X' by simp_all
  have b2: "map req es = [\<lparr>Cmd = ''MULTI'', Args = []\<rparr>, GET_a, GET_a, \<lparr>Cmd = ''EXEC'', Args = []\<rparr>]"
    using b by simp
  have c2: "reader_resolve es [?m, Reply (RString ''QUEUED''), Reply (RString ''QUEUED''), ?v] []
            = [(1, ?v, 7)]"
    using c by simp
  have c2': "reader_resolve_conn es' [?m, Reply (RString ''QUEUED''), Reply (RString ''QUEUED''), ?v] []
            = [(1, ?v, 7)]"
    using c' by simp
  show ?thesis
    apply (rule exI [of _ conn'])
    apply (rule exI [of _ conn_c'])
    apply (intro conjI)
       apply (rule sent)
      apply (rule sent_c)
     apply (rule exI [of _ k])
     apply (rule exI [of _ es])
     apply (intro conjI)
       apply (rule a)
      apply (rule b2)
     apply (rule c2)
    apply (rule exI [of _ k'])
    apply (rule exI [of _ es'])
    apply (intro conjI)
     apply (rule a')
    apply (rule c2')
    done
qed

section \<open>The notification invariant\<close>

lemma notify_and_store_effect:
  assumes "notify_and_store k futures c = Some c'"
  shows "shard c' = (shard c)[k := futures]"
    and "dirtyShard c' = dirtyShard c @ (if shard c ! k = [] then [of_nat k] else [])"
    and "Concurrency c' = Concurrency c" and "state c' = state c"
    and "resolved c' = resolved c" and "shardid c' = shardid c"
  using assms
  by (auto simp: notify_and_store_def send_dirtyShard_def split: if_splits option.splits)

lemma notify_and_store_order:
  "notify_and_store k futures c
   = map_option (store_futures k futures)
       (if length (shard c ! k) = 0 then send_dirtyShard k c else Some c)"
  by (simp add: notify_and_store_def store_futures_def split: option.splits)

lemma getShard_fields:
  "shard (snd (getShard c)) = shard c" "dirtyShard (snd (getShard c)) = dirtyShard c"
  "Concurrency (snd (getShard c)) = Concurrency c" "state (snd (getShard c)) = state c"
  "resolved (snd (getShard c)) = resolved c"
  by (simp_all add: getShard_def Let_def)

lemma doSend_live:
  assumes "\<not> Cancelled cb" "CheckArgs r = None" "getShard c = (k, c1)"
    and "state c1 = connConnecting \<or> state c1 = connConnected"
  shows "doSend now r cb n asking c
         = map_option (Pair None)
             (notify_and_store k
                (shard c1 ! k
                 @ (if asking then [\<lparr>Future = dumb, N = 0, start = 0,
                                       req = \<lparr>Cmd = ''ASKING'', Args = []\<rparr>\<rparr>] else [])
                 @ [\<lparr>Future = cb, N = n, start = now, req = r\<rparr>]) c1)"
  using assms by (auto simp: doSend_def Let_def)

lemma doSendBatch_live:
  assumes "\<not> Cancelled cb" "rs \<noteq> []" "getShard c = (k, c1)"
    and "state c1 = connConnecting \<or> state c1 = connConnected"
  shows "doSendBatch now rs cb st flags c
         = map_option (Pair None)
             (notify_and_store k
                (shard c1 ! k
                 @ (if (flags AND DoAsking) \<noteq> 0
                    then [\<lparr>Future = dumb, N = 0, start = 0,
                           req = \<lparr>Cmd = ''ASKING'', Args = []\<rparr>\<rparr>] else [])
                 @ (if (flags AND DoTransaction) \<noteq> 0
                    then [\<lparr>Future = dumb, N = 0, start = 0,
                           req = \<lparr>Cmd = ''MULTI'', Args = []\<rparr>\<rparr>] else [])
                 @ batch_entries cb st now 0 rs
                 @ (if (flags AND DoTransaction) \<noteq> 0
                    then [\<lparr>Future = cb, N = st + of_nat (length rs), start = now,
                           req = \<lparr>Cmd = ''EXEC'', Args = []\<rparr>\<rparr>] else [])) c1)"
  using assms by (auto simp: doSendBatch_def Let_def)

lemma doSend_cases:
  assumes "doSend now r cb n asking c = Some (e, c')"
  shows "(shard c' = shard c \<and> dirtyShard c' = dirtyShard c \<and> Concurrency c' = Concurrency c)
       \<or> (\<exists>futures. futures \<noteq> [] \<and>
             notify_and_store (fst (getShard c)) futures (snd (getShard c)) = Some c')"
proof (cases "Cancelled cb \<or> CheckArgs r \<noteq> None")
  case True
  then have "c' = c" using assms by (auto simp: doSend_def split: option.splits if_splits)
  then show ?thesis by simp
next
  case False
  then have nc: "\<not> Cancelled cb" and ca: "CheckArgs r = None" by auto
  obtain k c1 where g: "getShard c = (k, c1)" by (cases "getShard c")
  have f: "shard c1 = shard c" "dirtyShard c1 = dirtyShard c" "Concurrency c1 = Concurrency c"
    using getShard_fields [of c] g by simp_all
  show ?thesis
  proof (cases "state c1 = connClosed \<or> state c1 = connDisconnected")
    case True
    then have "c' = c1" using assms nc ca g by (auto simp: doSend_def)
    then show ?thesis using f by simp
  next
    case False
    then have live: "state c1 = connConnecting \<or> state c1 = connConnected"
      by (cases "state c1") auto
    let ?F = "shard c1 ! k
                 @ (if asking then [\<lparr>Future = dumb, N = 0, start = 0,
                                       req = \<lparr>Cmd = ''ASKING'', Args = []\<rparr>\<rparr>] else [])
                 @ [\<lparr>Future = cb, N = n, start = now, req = r\<rparr>]"
    have "notify_and_store k ?F c1 = Some c'"
      using assms unfolding doSend_live [OF nc ca g live] by auto
    moreover have "?F \<noteq> []" by simp
    ultimately show ?thesis using g by (intro disjI2 exI [of _ ?F]) simp
  qed
qed

lemma doSendBatch_cases:
  assumes "doSendBatch now rs cb st flags c = Some (e, c')"
  shows "(shard c' = shard c \<and> dirtyShard c' = dirtyShard c \<and> Concurrency c' = Concurrency c)
       \<or> (\<exists>futures. futures \<noteq> [] \<and>
             notify_and_store (fst (getShard c)) futures (snd (getShard c)) = Some c')"
proof (cases "rs = [] \<or> Cancelled cb")
  case True
  then have "shard c' = shard c \<and> dirtyShard c' = dirtyShard c \<and> Concurrency c' = Concurrency c"
    using assms by (auto simp: doSendBatch_def split: if_splits)
  then show ?thesis by simp
next
  case False
  then have ne: "rs \<noteq> []" and nc: "\<not> Cancelled cb" by auto
  obtain k c1 where g: "getShard c = (k, c1)" by (cases "getShard c")
  have f: "shard c1 = shard c" "dirtyShard c1 = dirtyShard c" "Concurrency c1 = Concurrency c"
    using getShard_fields [of c] g by simp_all
  have be: "batch_entries cb st now 0 rs \<noteq> []" using ne by (cases rs) simp_all
  show ?thesis
  proof (cases "state c1 = connClosed \<or> state c1 = connDisconnected")
    case True
    then have "c' = c1" using assms nc ne g by (auto simp: doSendBatch_def)
    then show ?thesis using f by simp
  next
    case False
    then have live: "state c1 = connConnecting \<or> state c1 = connConnected"
      by (cases "state c1") auto
    let ?F = "shard c1 ! k
                 @ (if (flags AND DoAsking) \<noteq> 0
                    then [\<lparr>Future = dumb, N = 0, start = 0,
                           req = \<lparr>Cmd = ''ASKING'', Args = []\<rparr>\<rparr>] else [])
                 @ (if (flags AND DoTransaction) \<noteq> 0
                    then [\<lparr>Future = dumb, N = 0, start = 0,
                           req = \<lparr>Cmd = ''MULTI'', Args = []\<rparr>\<rparr>] else [])
                 @ batch_entries cb st now 0 rs
                 @ (if (flags AND DoTransaction) \<noteq> 0
                    then [\<lparr>Future = cb, N = st + of_nat (length rs), start = now,
                           req = \<lparr>Cmd = ''EXEC'', Args = []\<rparr>\<rparr>] else [])"
    have "notify_and_store k ?F c1 = Some c'"
      using assms unfolding doSendBatch_live [OF nc ne g live] by auto
    moreover have "?F \<noteq> []" using be by simp
    ultimately show ?thesis using g by (intro disjI2 exI [of _ ?F]) simp
  qed
qed

lemma unat_shard_number:
  assumes "conn_ok c" "n < length (shard c)"
  shows "unat (of_nat n :: 32 word) = n"
proof -
  have "n < unat (Concurrency c)" using assms by (simp add: conn_ok_def)
  also have "unat (Concurrency c) < 2 ^ 32" using unsigned_less [of "Concurrency c", where 'a = nat] by simp
  finally show ?thesis by (simp add: unat_of_nat)
qed

lemma inv_same_shards:
  assumes "notify_inv S" "shard c' = shard (connection S)" "dirtyShard c' = dirtyShard (connection S)"
    and "Concurrency c' = Concurrency (connection S)"
  shows "notify_inv (S\<lparr>connection := c'\<rparr>)"
  using assms by (simp add: notify_inv_def conn_ok_def notified_def)

lemma inv_enqueue:
  assumes i: "notify_inv S" and ns: "notify_and_store k futures c1 = Some c'"
    and c1: "shard c1 = shard (connection S)" "dirtyShard c1 = dirtyShard (connection S)"
            "Concurrency c1 = Concurrency (connection S)"
  shows "notify_inv (S\<lparr>connection := c'\<rparr>)"
proof -
  note e = notify_and_store_effect [OF ns]
  have sh: "shard c' = (shard (connection S))[k := futures]" using e(1) c1 by simp
  have ds: "dirtyShard c' = dirtyShard (connection S) @ (if shard (connection S) ! k = [] then [of_nat k] else [])"
    using e(2) c1 by simp
  have cc: "Concurrency c' = Concurrency (connection S)" using e(3) c1 by simp
  have ok: "conn_ok c'" using i sh cc by (simp add: notify_inv_def conn_ok_def)
  have n: "\<forall>n < length (shard c'). shard c' ! n \<noteq> [] \<longrightarrow> notified (S\<lparr>connection := c'\<rparr>) n"
  proof (intro allI impI)
    fix n assume n: "n < length (shard c')" and ne: "shard c' ! n \<noteq> []"
    have nl: "n < length (shard (connection S))" using n sh by simp
    show "notified (S\<lparr>connection := c'\<rparr>) n"
    proof (cases "n = k \<and> shard (connection S) ! k = []")
      case True
      then show ?thesis using ds by (simp add: notified_def)
    next
      case False
      then have "shard (connection S) ! n \<noteq> []" using ne sh nl by (cases "n = k") auto
      then have "notified S n" using i nl by (simp add: notify_inv_def)
      then show ?thesis using ds by (auto simp: notified_def)
    qed
  qed
  show ?thesis using i ok n by (simp add: notify_inv_def)
qed

lemma inv_ASend:
  assumes "notify_inv S" "exec sc (ASend now r cb n asking) S = Some S'"
  shows "notify_inv S'"
proof -
  from assms(2) obtain e c' where d: "doSend now r cb n asking (connection S) = Some (e, c')"
    and S': "S' = S\<lparr>connection := c'\<rparr>" by auto
  from doSend_cases [OF d] show ?thesis
  proof
    assume "shard c' = shard (connection S) \<and> dirtyShard c' = dirtyShard (connection S)
            \<and> Concurrency c' = Concurrency (connection S)"
    then show ?thesis unfolding S' using assms(1) by (intro inv_same_shards) simp_all
  next
    assume "\<exists>futures. futures \<noteq> [] \<and>
              notify_and_store (fst (getShard (connection S))) futures (snd (getShard (connection S))) = Some c'"
    then obtain futures where
      ns: "notify_and_store (fst (getShard (connection S))) futures (snd (getShard (connection S))) = Some c'"
      by blast
    show ?thesis unfolding S'
      by (rule inv_enqueue [OF assms(1) ns]) (simp_all add: getShard_fields)
  qed
qed

lemma inv_ABatch:
  assumes "notify_inv S" "exec sc (ABatch now rs cb st flags) S = Some S'"
  shows "notify_inv S'"
proof -
  from assms(2) obtain e c' where d: "doSendBatch now rs cb st flags (connection S) = Some (e, c')"
    and S': "S' = S\<lparr>connection := c'\<rparr>" by auto
  from doSendBatch_cases [OF d] show ?thesis
  proof
    assume "shard c' = shard (connection S) \<and> dirtyShard c' = dirtyShard (connection S)
            \<and> Concurrency c' = Concurrency (connection S)"
    then show ?thesis unfolding S' using assms(1) by (intro inv_same_shards) simp_all
  next
    assume "\<exists>futures. futures \<noteq> [] \<and>
              notify_and_store (fst (getShard (connection S))) futures (snd (getShard (connection S))) = Some c'"
    then obtain futures where
      ns: "notify_and_store (fst (getShard (connection S))) futures (snd (getShard (connection S))) = Some c'"
      by blast
    show ?thesis unfolding S'
      by (rule inv_enqueue [OF assms(1) ns]) (simp_all add: getShard_fields)
  qed
qed

lemma phase_update_set:
  assumes "i < length ws"
  shows "set (map phase (ws[i := w])) \<subseteq> insert (phase w) (set (map phase ws))"
    and "\<And>p. p \<in> set (map phase ws) \<Longrightarrow> p \<noteq> phase (ws ! i) \<Longrightarrow> p \<in> set (map phase (ws[i := w]))"
    and "phase w \<in> set (map phase (ws[i := w]))"
proof -
  show "set (map phase (ws[i := w])) \<subseteq> insert (phase w) (set (map phase ws))"
    using set_update_subset_insert [of ws i w] by auto
  show "phase w \<in> set (map phase (ws[i := w]))"
    using assms set_update_memI [of i ws w] by auto
  fix p assume p: "p \<in> set (map phase ws)" and ne: "p \<noteq> phase (ws ! i)"
  then obtain j where j: "j < length ws" "phase (ws ! j) = p" by (auto simp: in_set_conv_nth)
  then have "j \<noteq> i" using ne by auto
  then have "(ws[i := w]) ! j = ws ! j" by simp
  then show "p \<in> set (map phase (ws[i := w]))"
    using j by (auto simp: in_set_conv_nth intro!: exI [of _ j])
qed

lemma inv_ARecv:
  assumes i: "notify_inv S" and ex: "exec sc (ARecv i) S = Some S'"
  shows "notify_inv S'"
proof -
  from ex obtain shardn rest where il: "i < length (writers S)"
    and ph: "phase (writers S ! i) = Parked"
    and ds: "dirtyShard (connection S) = shardn # rest"
    and S': "S' = S\<lparr>connection := (connection S)\<lparr>dirtyShard := rest\<rparr>,
                     writers := (writers S)[i := (writers S ! i)\<lparr>phase := Received (unat shardn)\<rparr>]\<rparr>"
    by (auto split: if_splits list.splits)
  let ?w = "(writers S ! i)\<lparr>phase := Received (unat shardn)\<rparr>"
  have ok: "conn_ok (connection S')" using i by (simp add: S' notify_inv_def conn_ok_def)
  have n: "\<forall>n < length (shard (connection S')). shard (connection S') ! n \<noteq> [] \<longrightarrow> notified S' n"
  proof (intro allI impI)
    fix n assume n: "n < length (shard (connection S'))" and ne: "shard (connection S') ! n \<noteq> []"
    then have nl: "n < length (shard (connection S))" and "shard (connection S) ! n \<noteq> []" by (simp_all add: S')
    then have "notified S n" using i by (simp add: notify_inv_def)
    then consider (head) "of_nat n = shardn" | (tail) "of_nat n \<in> set rest"
      | (held) "Received n \<in> set (map phase (writers S))"
      using ds by (auto simp: notified_def)
    then show "notified S' n"
    proof cases
      case head
      have "unat shardn = n" using unat_shard_number [of "connection S" n] i nl head by (auto simp: notify_inv_def)
      then have "phase ?w = Received n" by simp
      then have "Received n \<in> set (map phase ((writers S)[i := ?w]))"
        using phase_update_set(3) [OF il, of ?w] by simp
      then show ?thesis by (simp add: notified_def S')
    next
      case tail
      then show ?thesis by (simp add: notified_def S')
    next
      case held
      have "Received n \<noteq> phase (writers S ! i)" using ph by simp
      from phase_update_set(2) [OF il held this]
      show ?thesis by (simp add: notified_def S')
    qed
  qed
  have w: "\<forall>w \<in> set (writers S'). phase w \<noteq> Swapped \<longrightarrow> wfutures w = []"
  proof
    fix w assume "w \<in> set (writers S')"
    then have "w \<in> insert ?w (set (writers S))"
      using set_update_subset_insert [of "writers S" i ?w] by (auto simp: S')
    moreover have "wfutures (writers S ! i) = []" using i il ph by (auto simp: notify_inv_def)
    ultimately show "phase w \<noteq> Swapped \<longrightarrow> wfutures w = []" using i by (auto simp: notify_inv_def)
  qed
  show ?thesis using ok n w by (simp add: notify_inv_def)
qed

lemma inv_ASwap:
  assumes i: "notify_inv S" and ex: "exec sc (ASwap i) S = Some S'"
  shows "notify_inv S'"
proof -
  from ex obtain shardn where il: "i < length (writers S)"
    and ph: "phase (writers S ! i) = Received shardn"
    and S': "S' = S\<lparr>connection := (connection S)\<lparr>shard := (shard (connection S))[shardn := wfutures (writers S ! i)]\<rparr>,
                     writers := (writers S)[i := \<lparr>phase = Swapped,
                                                  wfutures = shard (connection S) ! shardn\<rparr>]\<rparr>"
    by (auto split: if_splits wphase.splits)
  let ?w = "\<lparr>phase = Swapped, wfutures = shard (connection S) ! shardn\<rparr>"
  have empty: "wfutures (writers S ! i) = []" using i il ph by (auto simp: notify_inv_def)
  have ok: "conn_ok (connection S')" using i by (simp add: S' notify_inv_def conn_ok_def)
  have n: "\<forall>n < length (shard (connection S')). shard (connection S') ! n \<noteq> [] \<longrightarrow> notified S' n"
  proof (intro allI impI)
    fix n assume n: "n < length (shard (connection S'))" and ne: "shard (connection S') ! n \<noteq> []"
    then have nl: "n < length (shard (connection S))" by (simp add: S')
    have nk: "n \<noteq> shardn" using ne nl empty by (auto simp: S')
    then have "shard (connection S) ! n \<noteq> []" using ne by (simp add: S')
    then have "notified S n" using i nl by (simp add: notify_inv_def)
    then consider (chan) "of_nat n \<in> set (dirtyShard (connection S))"
      | (held) "Received n \<in> set (map phase (writers S))"
      by (auto simp: notified_def)
    then show "notified S' n"
    proof cases
      case chan
      then show ?thesis by (simp add: notified_def S')
    next
      case held
      have "Received n \<noteq> phase (writers S ! i)" using ph nk by simp
      from phase_update_set(2) [OF il held this]
      show ?thesis by (simp add: notified_def S')
    qed
  qed
  have w: "\<forall>w \<in> set (writers S'). phase w \<noteq> Swapped \<longrightarrow> wfutures w = []"
  proof
    fix w assume "w \<in> set (writers S')"
    then have "w \<in> insert ?w (set (writers S))"
      using set_update_subset_insert [of "writers S" i ?w] by (auto simp: S')
    then show "phase w \<noteq> Swapped \<longrightarrow> wfutures w = []" using i by (auto simp: notify_inv_def)
  qed
  show ?thesis using ok n w by (simp add: notify_inv_def)
qed

lemma inv_AHandoff:
  assumes i: "notify_inv S" and ex: "exec sc (AHandoff i) S = Some S'"
  shows "notify_inv S'"
proof -
  from ex obtain log where il: "i < length (writers S)"
    and ph: "phase (writers S ! i) = Swapped"
    and S': "S' = S\<lparr>connection := (connection S)\<lparr>resolved := log\<rparr>,
                     writers := (writers S)[i := \<lparr>phase = Parked, wfutures = []\<rparr>]\<rparr>"
    by (auto split: if_splits prod.splits)
  let ?w = "\<lparr>phase = Parked, wfutures = []\<rparr>"
  have ok: "conn_ok (connection S')" using i by (simp add: S' notify_inv_def conn_ok_def)
  have n: "\<forall>n < length (shard (connection S')). shard (connection S') ! n \<noteq> [] \<longrightarrow> notified S' n"
  proof (intro allI impI)
    fix n assume n: "n < length (shard (connection S'))" and ne: "shard (connection S') ! n \<noteq> []"
    then have "notified S n" using i by (simp add: notify_inv_def S')
    then consider (chan) "of_nat n \<in> set (dirtyShard (connection S))"
      | (held) "Received n \<in> set (map phase (writers S))"
      by (auto simp: notified_def)
    then show "notified S' n"
    proof cases
      case chan
      then show ?thesis by (simp add: notified_def S')
    next
      case held
      have "Received n \<noteq> phase (writers S ! i)" using ph by simp
      from phase_update_set(2) [OF il held this]
      show ?thesis by (simp add: notified_def S')
    qed
  qed
  have w: "\<forall>w \<in> set (writers S'). phase w \<noteq> Swapped \<longrightarrow> wfutures w = []"
  proof
    fix w assume "w \<in> set (writers S')"
    then have "w \<in> insert ?w (set (writers S))"
      using set_update_subset_insert [of "writers S" i ?w] by (auto simp: S')
    then show "phase w \<noteq> Swapped \<longrightarrow> wfutures w = []" using i by (auto simp: notify_inv_def)
  qed
  show ?thesis using ok n w by (simp add: notify_inv_def)
qed

lemma inv_exec:
  assumes "notify_inv S" "exec sc a S = Some S'"
  shows "notify_inv S'"
proof (cases a)
  case (ASend now r cb n asking)
  then show ?thesis using assms inv_ASend by blast
next
  case (ABatch now rs cb st flags)
  then show ?thesis using assms inv_ABatch by blast
next
  case (ARecv i)
  then show ?thesis using assms inv_ARecv by blast
next
  case (ASwap i)
  then show ?thesis using assms inv_ASwap by blast
next
  case (AHandoff i)
  then show ?thesis using assms inv_AHandoff by blast
next
  case (ADrop e st)
  then have "S' = S\<lparr>connection := dropShardFutures e ((connection S)\<lparr>state := st\<rparr>)\<rparr>" using assms by simp
  then show ?thesis using assms(1)
    by (auto simp: notify_inv_def conn_ok_def dropShardFutures_def notified_def)
next
  case (ASetState st)
  then have S': "S' = S\<lparr>connection := (connection S)\<lparr>state := st\<rparr>\<rparr>" using assms by simp
  show ?thesis unfolding S' using assms(1) by (intro inv_same_shards) simp_all
next
  case ASpawn
  then have "S' = S\<lparr>writers := writers S @ [\<lparr>phase = Parked, wfutures = []\<rparr>]\<rparr>" using assms by simp
  then show ?thesis using assms(1) by (auto simp: notify_inv_def notified_def)
qed

lemma inv_run:
  assumes "notify_inv S" "run sc acts S = Some S'"
  shows "notify_inv S'"
  using assms
proof (induction acts arbitrary: S)
  case Nil
  then show ?case by simp
next
  case (Cons a acts)
  then obtain S1 where e: "exec sc a S = Some S1" and r: "run sc acts S1 = Some S'"
    by (auto split: option.splits)
  from inv_exec [OF Cons.prems(1) e] r show ?case by (rule Cons.IH)
qed

lemma inv_start:
  assumes "initial c"
  shows "notify_inv (start_system c)"
  using assms by (auto simp: notify_inv_def initial_def start_system_def)

text \<open>
  C7. In every state reached from a fresh connection by enqueues, writer steps and drops,
  a shard whose list is not empty is notified: its number is on the channel
  \<open>dirtyShard\<close>, or a writer has received it and has yet to swap the shard's list.
  An enqueue sends the notification first and stores the list after it, and it sends
  exactly one notification when it finds the shard's list empty, none otherwise.
\<close>

theorem dirty_shard_notified:
  assumes "initial c" and "run sc acts (start_system c) = Some S"
  shows "(\<forall>n < length (shard (connection S)). shard (connection S) ! n \<noteq> [] \<longrightarrow> notified S n)
       \<and> (\<forall>k futures c0. notify_and_store k futures c0
              = map_option (store_futures k futures)
                  (if length (shard c0 ! k) = 0 then send_dirtyShard k c0 else Some c0))
       \<and> (\<forall>k futures c0 c1. notify_and_store k futures c0 = Some c1 \<longrightarrow>
              dirtyShard c1 = dirtyShard c0 @ (if shard c0 ! k = [] then [of_nat k] else []))"
proof -
  have "notify_inv S" using inv_run [OF inv_start [OF assms(1)] assms(2)] .
  then have "\<forall>n < length (shard (connection S)). shard (connection S) ! n \<noteq> [] \<longrightarrow> notified S n"
    by (simp add: notify_inv_def)
  then show ?thesis using notify_and_store_order notify_and_store_effect(2) by blast
qed

theorem dirty_shard_notified_witness:
  "initial (example_conn connDisconnected)
   \<and> run strconv0 run_received (start_system (example_conn connDisconnected)) \<noteq> None
   \<and> notified (the (run strconv0 run_received (start_system (example_conn connDisconnected)))) 1"
proof -
  let ?r = "run strconv0 run_received (start_system (example_conn connDisconnected))"
  have i: "initial (example_conn connDisconnected)" by code_simp
  have r: "?r \<noteq> None" by code_simp
  then obtain S where S: "?r = Some S" by blast
  have l: "1 < length (shard (connection (the ?r)))" by code_simp
  have ne: "shard (connection (the ?r)) ! 1 \<noteq> []" by code_simp
  from dirty_shard_notified [OF i S] l ne S have "notified S 1" by simp
  then show ?thesis using i r S by simp
qed

text \<open>
  The number of notifications of a non-empty shard on the channel is not always one: it
  is zero after the writer's receive, and two after the second run above.
\<close>

theorem dirty_shard_exactly_one_counterexample:
  "initial (example_conn connDisconnected)
   \<and> run strconv0 run_received (start_system (example_conn connDisconnected)) \<noteq> None
   \<and> shard (connection (the (run strconv0 run_received (start_system (example_conn connDisconnected))))) ! 1 \<noteq> []
   \<and> count_list (dirtyShard (connection (the (run strconv0 run_received
                     (start_system (example_conn connDisconnected)))))) 1 = 0
   \<and> run strconv0 run_stale (start_system (example_conn connDisconnected)) \<noteq> None
   \<and> shard (connection (the (run strconv0 run_stale (start_system (example_conn connDisconnected))))) ! 1 \<noteq> []
   \<and> count_list (dirtyShard (connection (the (run strconv0 run_stale
                     (start_system (example_conn connDisconnected)))))) 1 = 2"
  by code_simp

end
